theory Spec2Isabelle
  imports Complex_Main
begin

section \<open>The ECMAScript Map underneath the cache\<close>

text \<open>
  The cache of \<^verbatim>\<open>lru-cache.ts\<close> keeps its entries in a JavaScript \<^verbatim>\<open>Map\<close>, whose
  iteration order is insertion order. ECMAScript specifies a Map as a list of slots:
  \<^verbatim>\<open>set\<close> overwrites the slot of a key that is present and appends a slot otherwise,
  \<^verbatim>\<open>delete\<close> empties the slot of the key (it does not shift the others, so a live iterator
  keeps its position), and iteration visits the slots that are not empty, in order.
  A stored value may be the JavaScript value \<^verbatim>\<open>undefined\<close>, which is also what
  \<^verbatim>\<open>Map.get\<close> answers for a key that is absent.
\<close>

datatype 'v js = Undefined | Val 'v

type_synonym 'v jsmap = "(string \<times> 'v js) option list"

fun jsmap_entries :: "'v jsmap \<Rightarrow> (string \<times> 'v js) list" where
  "jsmap_entries [] = []"
| "jsmap_entries (None # m) = jsmap_entries m"
| "jsmap_entries (Some e # m) = e # jsmap_entries m"

fun jsmap_has :: "'v jsmap \<Rightarrow> string \<Rightarrow> bool" where
  "jsmap_has [] k = False"
| "jsmap_has (None # m) k = jsmap_has m k"
| "jsmap_has (Some (k', v) # m) k = (k' = k \<or> jsmap_has m k)"

fun jsmap_get :: "'v jsmap \<Rightarrow> string \<Rightarrow> 'v js" where
  "jsmap_get [] k = Undefined"
| "jsmap_get (None # m) k = jsmap_get m k"
| "jsmap_get (Some (k', v) # m) k = (if k' = k then v else jsmap_get m k)"

fun jsmap_set :: "'v jsmap \<Rightarrow> string \<Rightarrow> 'v js \<Rightarrow> 'v jsmap" where
  "jsmap_set [] k v = [Some (k, v)]"
| "jsmap_set (None # m) k v = None # jsmap_set m k v"
| "jsmap_set (Some (k', v') # m) k v =
     (if k' = k then Some (k, v) # m else Some (k', v') # jsmap_set m k v)"

fun jsmap_delete :: "'v jsmap \<Rightarrow> string \<Rightarrow> 'v jsmap" where
  "jsmap_delete [] k = []"
| "jsmap_delete (None # m) k = None # jsmap_delete m k"
| "jsmap_delete (Some (k', v) # m) k =
     (if k' = k then None # m else Some (k', v) # jsmap_delete m k)"

definition jsmap_size :: "'v jsmap \<Rightarrow> nat" where
  "jsmap_size m = length (jsmap_entries m)"

text \<open>\<^verbatim>\<open>keys().next()\<close>: the first key in iteration order, or \<^verbatim>\<open>done\<close> (here \<open>None\<close>).\<close>

fun jsmap_first_key :: "'v jsmap \<Rightarrow> string option" where
  "jsmap_first_key [] = None"
| "jsmap_first_key (None # m) = jsmap_first_key m"
| "jsmap_first_key (Some (k, v) # m) = Some k"

definition jsmap_clear :: "'v jsmap \<Rightarrow> 'v jsmap" where
  "jsmap_clear m = map (\<lambda>slot. None) m"

section \<open>LRUCache (lru-cache.ts)\<close>

text \<open>
  The fields of the class are \<^verbatim>\<open>maxSize\<close>, the Map \<^verbatim>\<open>cache\<close> and the optional closure
  \<^verbatim>\<open>onEvict\<close>. The record holds the two data fields. \<^verbatim>\<open>maxSize\<close> is a JavaScript number:
  a real here, so that a capacity may be fractional (\<^verbatim>\<open>NaN\<close> and the infinities, for which
  the test of line 59 is constant, are not values of the model).
\<close>

record 'v LRUCache =
  maxSize :: real
  cache :: "'v jsmap"

text \<open>What a call may throw: the error of line 63, or whatever a caller's closure throws.\<close>

datatype error = CacheIterationFailed | Thrown string

text \<open>
  The closure \<^verbatim>\<open>onEvict\<close> is code of the caller, which \<^verbatim>\<open>set\<close> calls at line 70 with the
  evicted key and value. It runs on everything it can reach: the caller's environment
  \<open>'w\<close> and the cache itself, whose methods it may call. It ends by returning (\<open>None\<close>) or
  by throwing (\<open>Some\<close> of what it threw), and either way leaves the cache and the
  environment as they are at that moment; a closure that never returns has no value
  here. The closure is passed to \<open>LRUCache_set\<close> as an argument, since a record cannot
  hold a function on itself.
\<close>

type_synonym ('v, 'w) closure =
  "string \<Rightarrow> 'v \<Rightarrow> 'v LRUCache \<times> 'w \<Rightarrow> error option \<times> ('v LRUCache \<times> 'w)"

definition LRUCache_new :: "real \<Rightarrow> 'v LRUCache" where
  "LRUCache_new n = \<lparr>maxSize = n, cache = []\<rparr>"

text \<open>\<^verbatim>\<open>get\<close>: a value other than \<^verbatim>\<open>undefined\<close> is deleted and stored again, which moves
  its key to the end of the iteration order.\<close>

definition LRUCache_get :: "'v LRUCache \<Rightarrow> string \<Rightarrow> 'v js \<times> 'v LRUCache" where
  "LRUCache_get c key =
     (let v = jsmap_get (cache c) key in
      if v \<noteq> Undefined
      then (v, c\<lparr>cache := jsmap_set (jsmap_delete (cache c) key) key v\<rparr>)
      else (v, c))"

definition LRUCache_has :: "'v LRUCache \<Rightarrow> string \<Rightarrow> bool" where
  "LRUCache_has c key = jsmap_has (cache c) key"

text \<open>
  \<^verbatim>\<open>set\<close>, lines 57 to 68: what happens before the hook is called. The result is the
  cache after the removal and, when the branch of line 59 ran, the oldest entry that was
  removed. An empty iterator at line 62 is the thrown error.
\<close>

definition LRUCache_evict ::
  "'v LRUCache \<Rightarrow> string \<Rightarrow> error + ('v LRUCache \<times> (string \<times> 'v js) option)" where
  "LRUCache_evict c key =
     (if jsmap_has (cache c) key
      then Inr (c\<lparr>cache := jsmap_delete (cache c) key\<rparr>, None)
      else if maxSize c \<le> real (jsmap_size (cache c))
      then (case jsmap_first_key (cache c) of
              None \<Rightarrow> Inl CacheIterationFailed
            | Some oldestKey \<Rightarrow>
                (let oldestValue = jsmap_get (cache c) oldestKey
                 in Inr (c\<lparr>cache := jsmap_delete (cache c) oldestKey\<rparr>,
                         Some (oldestKey, oldestValue))))
      else Inr (c, None))"

text \<open>Lines 69 to 71: the hook runs when there is one and the removed value is not
  \<^verbatim>\<open>undefined\<close>, on the cache as the removal left it.\<close>

fun run_onEvict ::
  "('v, 'w) closure option \<Rightarrow> (string \<times> 'v js) option \<Rightarrow> 'v LRUCache \<times> 'w
     \<Rightarrow> error option \<times> ('v LRUCache \<times> 'w)" where
  "run_onEvict (Some hook) (Some (oldestKey, Val oldestValue)) s = hook oldestKey oldestValue s"
| "run_onEvict onEvict removed s = (None, s)"

text \<open>Line 73.\<close>

definition LRUCache_insert :: "'v LRUCache \<Rightarrow> string \<Rightarrow> 'v js \<Rightarrow> 'v LRUCache" where
  "LRUCache_insert c key v = c\<lparr>cache := jsmap_set (cache c) key v\<rparr>"

text \<open>
  \<^verbatim>\<open>set\<close> as a whole: removal, hook, insertion. The result says whether the call threw, and
  gives the cache and the environment as the call left them. When the hook throws, line
  73 is not reached; when it returns, the insertion is made into the cache as the hook
  left it.
\<close>

definition LRUCache_set ::
  "('v, 'w) closure option \<Rightarrow> 'v LRUCache \<Rightarrow> string \<Rightarrow> 'v js \<Rightarrow> 'w
     \<Rightarrow> error option \<times> ('v LRUCache \<times> 'w)" where
  "LRUCache_set onEvict c key v w =
     (case LRUCache_evict c key of
        Inl e \<Rightarrow> (Some e, (c, w))
      | Inr (c1, removed) \<Rightarrow>
          (case run_onEvict onEvict removed (c1, w) of
             (Some e, s) \<Rightarrow> (Some e, s)
           | (None, (c2, w2)) \<Rightarrow> (None, (LRUCache_insert c2 key v, w2))))"

definition LRUCache_delete :: "'v LRUCache \<Rightarrow> string \<Rightarrow> bool \<times> 'v LRUCache" where
  "LRUCache_delete c key = (jsmap_has (cache c) key, c\<lparr>cache := jsmap_delete (cache c) key\<rparr>)"

definition LRUCache_size :: "'v LRUCache \<Rightarrow> nat" where
  "LRUCache_size c = jsmap_size (cache c)"

definition LRUCache_entries :: "'v LRUCache \<Rightarrow> (string \<times> 'v js) list" where
  "LRUCache_entries c = jsmap_entries (cache c)"

definition LRUCache_clear :: "'v LRUCache \<Rightarrow> 'v LRUCache" where
  "LRUCache_clear c = c\<lparr>cache := jsmap_clear (cache c)\<rparr>"

subsection \<open>Sequences of calls\<close>

text \<open>A caller's calls on one cache, run in order. The environment \<open>'w\<close> is where the
  hook leaves its trace; a thrown error ends the run, in the state the failing call
  left.\<close>

datatype 'v cache_call = Set string "'v js" | Get string | Has string | Delete string

fun invoke ::
  "('v, 'w) closure option \<Rightarrow> 'v cache_call \<Rightarrow> 'v LRUCache \<times> 'w
     \<Rightarrow> error option \<times> ('v LRUCache \<times> 'w)" where
  "invoke onEvict (Set key v) (c, w) = LRUCache_set onEvict c key v w"
| "invoke onEvict (Get key) (c, w) = (None, (snd (LRUCache_get c key), w))"
| "invoke onEvict (Has key) (c, w) = (let present = LRUCache_has c key in (None, (c, w)))"
| "invoke onEvict (Delete key) (c, w) = (None, (snd (LRUCache_delete c key), w))"

fun run ::
  "('v, 'w) closure option \<Rightarrow> 'v cache_call list \<Rightarrow> 'v LRUCache \<times> 'w
     \<Rightarrow> error option \<times> ('v LRUCache \<times> 'w)" where
  "run onEvict [] s = (None, s)"
| "run onEvict (call # calls) s =
     (case invoke onEvict call s of
        (Some e, s') \<Rightarrow> (Some e, s')
      | (None, s') \<Rightarrow> run onEvict calls s')"


definition sets :: "(string \<times> 'v js) list \<Rightarrow> 'v cache_call list" where
  "sets kvs = map (\<lambda>(k, v). Set k v) kvs"


text \<open>Three closures. The first records its calls, in order, and touches nothing else.
  The second records its call and throws. The third is
  \<^verbatim>\<open>(k, v) => cache.set(k, v)\<close> on the cache it is the hook of: the nested call has the same
  hook, and \<open>depth\<close> bounds the nesting, as the call stack does.\<close>

definition record_call :: "('v, (string \<times> 'v) list) closure" where
  "record_call k v s = (None, (fst s, snd s @ [(k, v)]))"

definition record_and_throw :: "('v, (string \<times> 'v) list) closure" where
  "record_and_throw k v s = (Some (Thrown ''hook''), (fst s, snd s @ [(k, v)]))"



text \<open>The calls that only ask whether a key is present.\<close>

fun is_Has :: "'v cache_call \<Rightarrow> bool" where
  "is_Has (Has k) = True"
| "is_Has call = False"


section \<open>Path matcher (cors.ts)\<close>

text \<open>JavaScript's \<^verbatim>\<open>startsWith\<close> and \<^verbatim>\<open>endsWith\<close> on strings, by code units.\<close>

definition startsWith :: "string \<Rightarrow> string \<Rightarrow> bool" where
  "startsWith s p = (take (length p) s = p)"

definition endsWith :: "string \<Rightarrow> string \<Rightarrow> bool" where
  "endsWith s p = (length p \<le> length s \<and> drop (length s - length p) s = p)"

definition matchesAllowedPathBoundary :: "string \<Rightarrow> string \<Rightarrow> bool" where
  "matchesAllowedPathBoundary requestPath allowedPath =
     (if requestPath = allowedPath then True
      else if endsWith allowedPath ''/'' then startsWith requestPath allowedPath
      else startsWith requestPath (allowedPath @ ''/''))"

definition CORS_ALLOWED_PATHS :: "string list" where
  "CORS_ALLOWED_PATHS = [''/mcp'']"

definition isCorsAllowedPath :: "string \<Rightarrow> bool" where
  "isCorsAllowedPath requestPath =
     list_ex (\<lambda>allowedPath. matchesAllowedPathBoundary requestPath allowedPath) CORS_ALLOWED_PATHS"

text \<open>The contract in the words of the design: the request path is the allowed prefix
  itself, or the prefix followed immediately by a separator; a prefix that already ends
  in the separator is matched as it is.\<close>

definition boundary_contract :: "string \<Rightarrow> string \<Rightarrow> bool" where
  "boundary_contract requestPath allowedPrefix =
     (requestPath = allowedPrefix \<or>
      (\<exists>rest. requestPath = allowedPrefix @ rest \<and>
          (if allowedPrefix \<noteq> [] \<and> last allowedPrefix = CHR ''/'' then True
           else rest \<noteq> [] \<and> hd rest = CHR ''/'')))"


section \<open>HTTP server (http-server.ts)\<close>

text \<open>
  The server keeps one \<^verbatim>\<open>LRUCache<SessionInfo>\<close>. What lies outside the repository is a
  parameter of the model (\<open>outside\<close>): the clock, the random source behind
  \<^verbatim>\<open>randomUUID\<close>, the predicate \<^verbatim>\<open>isInitializeRequest\<close> of the protocol library, and how a
  protocol engine (a \<^verbatim>\<open>StreamableHTTPServerTransport\<close>) behaves when it is closed. Engines
  are numbered in the order of their construction. Console output and the shutdown
  handler are left out.
  JavaScript runs each piece of code below to completion; what an engine does while a
  handler awaits it reaches the server only through the callbacks \<open>onsessioninitialized\<close>
  and \<open>onclose\<close>, which are events of their own (\<open>reachable\<close>).
\<close>

definition SESSION_IDLE_TIMEOUT_MS :: int where
  "SESSION_IDLE_TIMEOUT_MS = 30 * 60 * 1000"

definition MAX_SESSIONS :: real where
  "MAX_SESSIONS = 1000"

definition JSONRPC_ERROR_INVALID_REQUEST :: int where
  "JSONRPC_ERROR_INVALID_REQUEST = - 32600"

definition JSONRPC_ERROR_INTERNAL :: int where
  "JSONRPC_ERROR_INTERNAL = - 32603"

record SessionInfo =
  transport :: nat
  lastActivity :: int

datatype close_result = Resolves | Rejects | Throws

record 'b outside =
  now :: "nat \<Rightarrow> int"
  random :: "nat \<Rightarrow> nat"
  isInitializeRequest :: "'b \<Rightarrow> bool"
  closing :: "nat \<Rightarrow> close_result"
  signals_close :: "nat \<Rightarrow> bool"

text \<open>
  \<open>now out n\<close> is what the \<open>n\<close>-th call of \<^verbatim>\<open>Date.now()\<close> returns and \<open>random out n\<close> the
  random bits of the \<open>n\<close>-th call of \<^verbatim>\<open>randomUUID()\<close>; the state counts the calls.
  \<open>closing out e\<close> is how \<^verbatim>\<open>close()\<close> of engine \<open>e\<close> ends (its promise resolves, its
  promise rejects, or it throws), and \<open>signals_close out e\<close> whether \<^verbatim>\<open>close()\<close> runs the
  engine's \<^verbatim>\<open>onclose\<close> callback before it returns, as the library's transport does.
\<close>

record server =
  sessions :: "SessionInfo LRUCache"
  engines :: nat
  sessionId :: "(nat \<times> string) list"
  close_calls :: "nat list"
  clock_reads :: nat
  uuids :: nat

text \<open>
  \<open>engines\<close> counts the transports constructed so far, \<open>sessionId\<close> holds
  \<^verbatim>\<open>transport.sessionId\<close> of the engines that have established a session, and
  \<open>close_calls\<close> lists the calls of \<^verbatim>\<open>transport.close()\<close> in order.
\<close>

definition startHttpServer :: server where
  "startHttpServer =
     \<lparr>sessions = LRUCache_new MAX_SESSIONS, engines = 0, sessionId = [], close_calls = [],
      clock_reads = 0, uuids = 0\<rparr>"

subsection \<open>Requests and responses\<close>

record 'b request =
  req_method :: string
  req_path :: string
  req_origin :: "string option"
  req_session_id :: "string option"
  req_body :: 'b

text \<open>A header that is absent reads as \<^verbatim>\<open>undefined\<close> (\<open>None\<close>). The conditions of the
  handlers test a header for truthiness: \<^verbatim>\<open>undefined\<close> and the empty string are falsy.\<close>

definition truthy :: "string option \<Rightarrow> bool" where
  "truthy h = (case h of None \<Rightarrow> False | Some s \<Rightarrow> s \<noteq> [])"

definition string_of :: "string option \<Rightarrow> string" where
  "string_of h = (case h of None \<Rightarrow> [] | Some s \<Rightarrow> s)"

datatype payload = JsonRpcError int string | ErrorMessage string | NoBody

datatype reply = Reply nat payload | Streamed

text \<open>
  \<open>Reply status (JsonRpcError code message)\<close> is the envelope
  \<^verbatim>\<open>{jsonrpc: "2.0", error: {code, message}, id: null}\<close> sent with \<open>status\<close>;
  \<open>Streamed\<close> stands for what an engine writes. A response holds the \<^verbatim>\<open>setHeader\<close> calls,
  \<^verbatim>\<open>headersSent\<close> and what has been sent. Setting a header or sending a body after the headers
  were sent throws, as Node.js does.
\<close>

record response =
  headers :: "(string \<times> string) list"
  headersSent :: bool
  sent :: "reply list"

datatype failure = HeadersAlreadySent | DispatchFailed | ConnectFailed | CacheFailed error | TypeError

definition setHeader :: "string \<Rightarrow> string \<Rightarrow> response \<Rightarrow> failure + response" where
  "setHeader name v res =
     (if headersSent res then Inl HeadersAlreadySent
      else Inr (res\<lparr>headers := headers res @ [(name, v)]\<rparr>))"

text \<open>\<^verbatim>\<open>res.status(s).json(b)\<close> and \<^verbatim>\<open>res.status(s).end()\<close>.\<close>

definition json :: "nat \<Rightarrow> payload \<Rightarrow> response \<Rightarrow> failure + response" where
  "json status b res =
     (if headersSent res then Inl HeadersAlreadySent
      else Inr (res\<lparr>headersSent := True, sent := sent res @ [Reply status b]\<rparr>))"

definition end_response :: "nat \<Rightarrow> response \<Rightarrow> response" where
  "end_response status res =
     (if headersSent res then res
      else res\<lparr>headersSent := True, sent := sent res @ [Reply status NoBody]\<rparr>)"

text \<open>
  What \<^verbatim>\<open>await transport.handleRequest(req, res, ...)\<close> does to the response is the
  engine's choice, a parameter of each request: whether the engine sends the headers
  (and starts its stream), and whether the call ends by throwing. In the branch that
  constructs an engine, \<open>connects\<close> says whether \<^verbatim>\<open>getServer()\<close> and
  \<^verbatim>\<open>server.connect(transport)\<close> return normally.
\<close>

record dispatch =
  connects :: bool
  commits :: bool
  throws :: bool

definition handleRequest :: "dispatch \<Rightarrow> response \<Rightarrow> bool \<times> response" where
  "handleRequest d res =
     (throws d,
      if commits d then res\<lparr>headersSent := True, sent := sent res @ [Streamed]\<rparr> else res)"

subsection \<open>Session identifiers\<close>

text \<open>
  \<^verbatim>\<open>sessionIdGenerator: () => randomUUID()\<close>. \<^verbatim>\<open>randomUUID\<close> of \<^verbatim>\<open>node:crypto\<close> renders
  random bits as a version 4 UUID: 36 characters, hexadecimal digits in groups of 8, 4,
  4, 4 and 12, with the version and the variant at their fixed places. \<open>nibble bits i\<close>
  is the \<open>i\<close>-th hexadecimal digit of \<open>bits\<close>.
\<close>

definition nibble :: "nat \<Rightarrow> nat \<Rightarrow> char" where
  "nibble bits i = ''0123456789abcdef'' ! ((bits div 16 ^ i) mod 16)"

definition randomUUID :: "nat \<Rightarrow> string" where
  "randomUUID bits =
     map (nibble bits) [31, 30, 29, 28, 27, 26, 25, 24] @ ''-''
       @ map (nibble bits) [23, 22, 21, 20] @ ''-4''
       @ map (nibble bits) [18, 17, 16] @ ''-''
       @ [''89ab'' ! ((bits div 16 ^ 15) mod 4)] @ map (nibble bits) [14, 13, 12] @ ''-''
       @ map (nibble bits) [11, 10, 9, 8, 7, 6, 5, 4, 3, 2, 1, 0]"

subsection \<open>The closures over the session cache\<close>

definition sessions_get :: "string \<Rightarrow> server \<Rightarrow> SessionInfo js \<times> server" where
  "sessions_get key st =
     (let (v, c) = LRUCache_get (sessions st) key in (v, st\<lparr>sessions := c\<rparr>))"

definition sessions_delete :: "string \<Rightarrow> server \<Rightarrow> server" where
  "sessions_delete key st = st\<lparr>sessions := snd (LRUCache_delete (sessions st) key)\<rparr>"

text \<open>\<^verbatim>\<open>transport.onclose\<close>, lines 272 to 279.\<close>

definition onclose :: "nat \<Rightarrow> server \<Rightarrow> server" where
  "onclose e st =
     (let sid = map_of (sessionId st) e
      in if truthy sid \<and> LRUCache_has (sessions st) (string_of sid)
         then sessions_delete (string_of sid) st
         else st)"

text \<open>\<^verbatim>\<open>transport.close()\<close> of engine \<open>e\<close>: the call is recorded, the engine may run its
  \<^verbatim>\<open>onclose\<close>, and the call ends as the engine decides.\<close>

definition transport_close :: "'b outside \<Rightarrow> nat \<Rightarrow> server \<Rightarrow> close_result \<times> server" where
  "transport_close out e st =
     (let st1 = st\<lparr>close_calls := close_calls st @ [e]\<rparr>
      in (closing out e, if signals_close out e then onclose e st1 else st1))"

text \<open>
  The hook given to the cache, lines 196 to 210. A rejected promise is handled by
  \<^verbatim>\<open>.catch\<close>, a thrown error by the \<^verbatim>\<open>catch\<close> block: however \<^verbatim>\<open>close()\<close> ends, the hook
  returns.
\<close>

definition onEvict :: "'b outside \<Rightarrow> string \<Rightarrow> SessionInfo \<Rightarrow> server \<Rightarrow> server" where
  "onEvict out sid session st =
     (case transport_close out (transport session) st of
        (Resolves, st') \<Rightarrow> st'
      | (Rejects, st') \<Rightarrow> st'
      | (Throws, st') \<Rightarrow> st')"

text \<open>
  \<^verbatim>\<open>sessions.set(key, info)\<close>. The hook is a closure over the server, and the engine it
  closes may call back into the cache, so the hook runs on the whole state, between the
  two halves of \<open>LRUCache_set\<close>. A thrown error leaves the state as it was.
\<close>

definition sessions_set ::
  "'b outside \<Rightarrow> string \<Rightarrow> SessionInfo \<Rightarrow> server \<Rightarrow> failure option \<times> server" where
  "sessions_set out key info st =
     (case LRUCache_evict (sessions st) key of
        Inl e \<Rightarrow> (Some (CacheFailed e), st)
      | Inr (c1, removed) \<Rightarrow>
          (let st1 = st\<lparr>sessions := c1\<rparr>;
               st2 = (case removed of
                        Some (oldestKey, Val oldestValue) \<Rightarrow> onEvict out oldestKey oldestValue st1
                      | Some (oldestKey, Undefined) \<Rightarrow> st1
                      | None \<Rightarrow> st1)
           in (None, st2\<lparr>sessions := LRUCache_insert (sessions st2) key (Val info)\<rparr>)))"

text \<open>\<^verbatim>\<open>touchSession\<close>, lines 215 to 222.\<close>

definition touchSession :: "'b outside \<Rightarrow> string \<Rightarrow> server \<Rightarrow> failure option \<times> server" where
  "touchSession out sid st =
     (let (session, st1) = sessions_get sid st
      in case session of
           Undefined \<Rightarrow> (None, st1)
         | Val info \<Rightarrow>
             (let t = now out (clock_reads st1);
                  st2 = st1\<lparr>clock_reads := Suc (clock_reads st1)\<rparr>
              in sessions_set out sid (info\<lparr>lastActivity := t\<rparr>) st2))"

text \<open>\<^verbatim>\<open>cleanupSession\<close>, lines 225 to 246.\<close>

definition cleanupSession :: "'b outside \<Rightarrow> string \<Rightarrow> server \<Rightarrow> server" where
  "cleanupSession out sid st =
     (let (session, st1) = sessions_get sid st
      in case session of
           Undefined \<Rightarrow> st1
         | Val info \<Rightarrow>
             (case transport_close out (transport info) st1 of
                (Resolves, st2) \<Rightarrow> sessions_delete sid st2
              | (Rejects, st2) \<Rightarrow> sessions_delete sid st2
              | (Throws, st2) \<Rightarrow> sessions_delete sid st2))"

text \<open>
  \<^verbatim>\<open>onsessioninitialized\<close>, lines 264 to 269, as engine \<open>e\<close> calls it when it establishes its
  session: the engine takes its identifier from the generator it was given, keeps it as
  \<^verbatim>\<open>transport.sessionId\<close> and passes it to the callback.
\<close>

definition session_initialized :: "'b outside \<Rightarrow> nat \<Rightarrow> server \<Rightarrow> failure option \<times> server" where
  "session_initialized out e st =
     (let sid = randomUUID (random out (uuids st));
          st1 = st\<lparr>uuids := Suc (uuids st), sessionId := (e, sid) # sessionId st\<rparr>;
          t = now out (clock_reads st1);
          st2 = st1\<lparr>clock_reads := Suc (clock_reads st1)\<rparr>
      in sessions_set out sid \<lparr>transport = e, lastActivity = t\<rparr> st2)"

subsection \<open>The handlers\<close>

text \<open>The \<^verbatim>\<open>catch\<close> blocks of lines 308 to 320 and 363 to 375, and the body of the error
  handler of lines 384 to 404.\<close>

definition internal_error :: "string \<Rightarrow> response \<Rightarrow> failure + response" where
  "internal_error message res =
     (if \<not> headersSent res
      then json 500 (JsonRpcError JSONRPC_ERROR_INTERNAL message) res
      else Inr res)"

definition invalid_request :: "nat \<Rightarrow> string \<Rightarrow> response \<Rightarrow> failure + response" where
  "invalid_request status message res =
     json status (JsonRpcError JSONRPC_ERROR_INVALID_REQUEST message) res"

text \<open>
  A handler is an \<^verbatim>\<open>async\<close> function: it ends by resolving or by rejecting (\<open>Some\<close> of what
  was thrown), and either way the state and the response are as it left them.
\<close>

type_synonym outcome = "failure option \<times> server \<times> response"

definition settle :: "server \<Rightarrow> failure + response \<Rightarrow> response \<Rightarrow> outcome" where
  "settle st r res = (case r of Inl f \<Rightarrow> (Some f, st, res) | Inr res' \<Rightarrow> (None, st, res'))"

text \<open>\<^verbatim>\<open>mcpPostHandler\<close>, lines 249 to 321. \<open>post_try\<close> is the \<^verbatim>\<open>try\<close> block.\<close>

definition post_try :: "'b outside \<Rightarrow> dispatch \<Rightarrow> 'b request \<Rightarrow> response \<Rightarrow> server \<Rightarrow> outcome" where
  "post_try out d req res st =
     (let sid = req_session_id req;
          (existingSession, st1) =
             (if truthy sid then sessions_get (string_of sid) st else (Undefined, st))
      in if truthy sid \<and> existingSession \<noteq> Undefined then
           (case touchSession out (string_of sid) st1 of
              (Some f, st2) \<Rightarrow> (Some f, st2, res)
            | (None, st2) \<Rightarrow>
                (case handleRequest d res of
                   (True, res') \<Rightarrow> (Some DispatchFailed, st2, res')
                 | (False, res') \<Rightarrow> (None, st2, res')))
         else if \<not> truthy sid \<and> isInitializeRequest out (req_body req) then
           (let st2 = st1\<lparr>engines := Suc (engines st1)\<rparr>
            in if \<not> connects d then (Some ConnectFailed, st2, res)
               else (case handleRequest d res of
                       (True, res') \<Rightarrow> (Some DispatchFailed, st2, res')
                     | (False, res') \<Rightarrow> (None, st2, res')))
         else if truthy sid \<and> existingSession = Undefined then
           settle st1 (invalid_request 404 ''Session not found'' res) res
         else
           settle st1 (invalid_request 400 ''Bad Request: No valid session ID provided'' res) res)"

definition mcpPostHandler ::
  "'b outside \<Rightarrow> dispatch \<Rightarrow> 'b request \<Rightarrow> response \<Rightarrow> server \<Rightarrow> outcome" where
  "mcpPostHandler out d req res st =
     (case post_try out d req res st of
        (None, st', res') \<Rightarrow> (None, st', res')
      | (Some f, st', res') \<Rightarrow> settle st' (internal_error ''Internal server error'' res') res')"

text \<open>\<^verbatim>\<open>mcpGetHandler\<close>, lines 324 to 342: no \<^verbatim>\<open>try\<close> block.\<close>

definition mcpGetHandler ::
  "'b outside \<Rightarrow> dispatch \<Rightarrow> 'b request \<Rightarrow> response \<Rightarrow> server \<Rightarrow> outcome" where
  "mcpGetHandler out d req res st =
     (let sid = req_session_id req;
          (session, st1) =
             (if truthy sid then sessions_get (string_of sid) st else (Undefined, st))
      in if \<not> truthy sid \<or> session = Undefined then
           settle st1
             (invalid_request (if truthy sid then 404 else 400)
                (if truthy sid then ''Session not found'' else ''Missing session ID'') res) res
         else
           (case touchSession out (string_of sid) st1 of
              (Some f, st2) \<Rightarrow> (Some f, st2, res)
            | (None, st2) \<Rightarrow>
                (case handleRequest d res of
                   (True, res') \<Rightarrow> (Some DispatchFailed, st2, res')
                 | (False, res') \<Rightarrow> (None, st2, res'))))"

text \<open>\<^verbatim>\<open>mcpDeleteHandler\<close>, lines 345 to 376.\<close>

definition mcpDeleteHandler ::
  "'b outside \<Rightarrow> dispatch \<Rightarrow> 'b request \<Rightarrow> response \<Rightarrow> server \<Rightarrow> outcome" where
  "mcpDeleteHandler out d req res st =
     (let sid = req_session_id req;
          (session, st1) =
             (if truthy sid then sessions_get (string_of sid) st else (Undefined, st))
      in if \<not> truthy sid \<or> session = Undefined then
           settle st1
             (invalid_request (if truthy sid then 404 else 400)
                (if truthy sid then ''Session not found'' else ''Missing session ID'') res) res
         else
           (case handleRequest d res of
              (True, res') \<Rightarrow>
                settle st1 (internal_error ''Error processing session termination'' res') res'
            | (False, res') \<Rightarrow> (None, st1, res')))"

text \<open>
  The error-handling middleware, lines 384 to 404, and how a route runs: Express passes
  the rejection of a handler's promise to the error-handling middleware (Express 5; the
  framework is not part of the repository).
\<close>

definition errorHandler :: "response \<Rightarrow> failure + response" where
  "errorHandler res = internal_error ''Internal server error'' res"

definition route :: "outcome \<Rightarrow> outcome" where
  "route result =
     (case result of
        (None, st, res) \<Rightarrow> (None, st, res)
      | (Some f, st, res) \<Rightarrow> settle st (errorHandler res) res)"

subsection \<open>The CORS middleware, lines 142 to 174\<close>

datatype flow = Next | Ended

definition cors_headers :: "string \<Rightarrow> response \<Rightarrow> failure + response" where
  "cors_headers origin res =
     (case setHeader ''Access-Control-Allow-Origin'' origin res of
        Inl f \<Rightarrow> Inl f
      | Inr r1 \<Rightarrow>
     (case setHeader ''Access-Control-Allow-Methods'' ''GET, POST, DELETE, OPTIONS'' r1 of
        Inl f \<Rightarrow> Inl f
      | Inr r2 \<Rightarrow>
     (case setHeader ''Access-Control-Allow-Headers'' ''Content-Type, mcp-session-id'' r2 of
        Inl f \<Rightarrow> Inl f
      | Inr r3 \<Rightarrow> setHeader ''Access-Control-Max-Age'' ''86400'' r3)))"

definition corsMiddleware :: "'b request \<Rightarrow> response \<Rightarrow> failure + (flow \<times> response)" where
  "corsMiddleware req res =
     (let origin = req_origin req
      in if \<not> truthy origin then Inr (Next, res)
         else if isCorsAllowedPath (req_path req) then
           (case cors_headers (string_of origin) res of
              Inl f \<Rightarrow> Inl f
            | Inr res' \<Rightarrow>
                if req_method req = ''OPTIONS'' then Inr (Ended, end_response 204 res')
                else Inr (Next, res'))
         else
           (case json 403 (ErrorMessage ''Cross-origin requests not allowed'') res of
              Inl f \<Rightarrow> Inl f
            | Inr res' \<Rightarrow> Inr (Ended, res')))"


subsection \<open>The idle sweep, lines 407 to 417\<close>

text \<open>
  The loop iterates over the live Map while \<^verbatim>\<open>cleanupSession\<close> changes it: \<open>i\<close> is the
  iterator's position among the slots, an empty slot is skipped, and slots appended
  during the loop are visited too. Reading \<^verbatim>\<open>lastActivity\<close> of \<^verbatim>\<open>undefined\<close> throws.
\<close>

function sweep :: "'b outside \<Rightarrow> int \<Rightarrow> nat \<Rightarrow> server \<Rightarrow> failure + server" where
  "sweep out t i st =
     (if i < length (cache (sessions st)) then
        (case cache (sessions st) ! i of
           None \<Rightarrow> sweep out t (Suc i) st
         | Some (sid, Undefined) \<Rightarrow> Inl TypeError
         | Some (sid, Val session) \<Rightarrow>
             if t - lastActivity session > SESSION_IDLE_TIMEOUT_MS
             then sweep out t (Suc i) (cleanupSession out sid st)
             else sweep out t (Suc i) st)
      else Inr st)"
  by pat_completeness auto
termination
proof (relation "measure (\<lambda>(out, t, i, st).
          2 * jsmap_size (cache (sessions st)) + (length (cache (sessions st)) - i))")
  fix out :: "'b outside" and t :: int and i :: nat and st :: server
    and sid :: string and session :: SessionInfo
  assume i: "i < length (cache (sessions st))"
  have has_size: "jsmap_has m k \<Longrightarrow> 0 < jsmap_size m" for m :: "SessionInfo jsmap" and k
    by (induction m k rule: jsmap_has.induct) (auto simp: jsmap_size_def)
  have len_del: "length (jsmap_delete m k) = length m" for m :: "SessionInfo jsmap" and k
    by (induction m k rule: jsmap_delete.induct) auto
  have size_del: "jsmap_size (jsmap_delete m k) = jsmap_size m - (if jsmap_has m k then 1 else 0)"
    for m :: "SessionInfo jsmap" and k
  proof (induction m k rule: jsmap_delete.induct)
    case (3 k' v m k)
    then show ?case using has_size[of m k] by (auto simp: jsmap_size_def)
  qed (auto simp: jsmap_size_def)
  have len_set: "length (jsmap_set m k v) \<le> Suc (length m)"
    for m :: "SessionInfo jsmap" and k v
    by (induction m k v rule: jsmap_set.induct) auto
  have size_set: "jsmap_size (jsmap_set m k v) \<le> Suc (jsmap_size m)"
    for m :: "SessionInfo jsmap" and k v
    by (induction m k v rule: jsmap_set.induct) (auto simp: jsmap_size_def)
  have has_set: "jsmap_has (jsmap_set m k v) k" for m :: "SessionInfo jsmap" and k v
    by (induction m k v rule: jsmap_set.induct) auto
  have get_has: "jsmap_get m k \<noteq> Undefined \<Longrightarrow> jsmap_has m k"
    for m :: "SessionInfo jsmap" and k
    by (induction m k rule: jsmap_get.induct) (auto split: if_splits)
  let ?m = "cache (sessions st)"
  let ?st' = "cleanupSession out sid st"
  have "?st' = st
      \<or> (length (cache (sessions ?st')) \<le> Suc (length ?m)
           \<and> jsmap_size (cache (sessions ?st')) < jsmap_size ?m)"
  proof (cases "jsmap_get ?m sid")
    case Undefined
    then show ?thesis
      by (simp add: cleanupSession_def sessions_get_def LRUCache_get_def)
  next
    case (Val info)
    let ?m1 = "jsmap_set (jsmap_delete ?m sid) sid (Val info)"
    let ?st1 = "st\<lparr>sessions := (sessions st)\<lparr>cache := ?m1\<rparr>\<rparr>"
    let ?st2 = "snd (transport_close out (transport info) ?st1)"
    let ?m2 = "cache (sessions ?st2)"
    have has: "jsmap_has ?m sid" using Val get_has[of ?m sid] by simp
    have eq: "?st' = sessions_delete sid ?st2"
      using Val by (auto simp: cleanupSession_def sessions_get_def LRUCache_get_def Let_def
          split: prod.splits close_result.splits)
    have len1: "length ?m1 \<le> Suc (length ?m)"
      using len_set[of "jsmap_delete ?m sid" sid "Val info"] by (simp add: len_del)
    have size1: "jsmap_size ?m1 \<le> jsmap_size ?m"
      using has has_size[OF has] size_set[of "jsmap_delete ?m sid" sid "Val info"]
      by (simp add: size_del)
    have has1: "jsmap_has ?m1 sid" by (rule has_set)
    have m2: "?m2 = ?m1 \<or> (\<exists>k. jsmap_has ?m1 k \<and> ?m2 = jsmap_delete ?m1 k)"
      by (auto simp: transport_close_def onclose_def sessions_delete_def LRUCache_delete_def
          LRUCache_has_def Let_def)
    have "length (jsmap_delete ?m2 sid) = length ?m1"
      using m2 by (auto simp: len_del)
    moreover have "jsmap_size (jsmap_delete ?m2 sid) < jsmap_size ?m1"
      using m2
    proof
      assume "?m2 = ?m1"
      then show ?thesis using has1 has_size[OF has1] by (simp add: size_del)
    next
      assume "\<exists>k. jsmap_has ?m1 k \<and> ?m2 = jsmap_delete ?m1 k"
      then obtain k where k: "jsmap_has ?m1 k" "?m2 = jsmap_delete ?m1 k" by blast
      have "jsmap_size ?m2 < jsmap_size ?m1"
        using k has_size[OF k(1)] by (simp add: size_del)
      moreover have "jsmap_size (jsmap_delete ?m2 sid) \<le> jsmap_size ?m2"
        by (simp add: size_del)
      ultimately show ?thesis by linarith
    qed
    ultimately show ?thesis
      using len1 size1 by (simp add: eq sessions_delete_def LRUCache_delete_def)
  qed
  with i show "((out, t, Suc i, ?st'), out, t, i, st)
       \<in> measure (\<lambda>(out, t, i, st).
          2 * jsmap_size (cache (sessions st)) + (length (cache (sessions st)) - i))"
    by auto
qed auto

declare sweep.simps [simp del]

text \<open>The callback of \<^verbatim>\<open>setInterval\<close>: one reading of the clock, then the loop.\<close>

definition cleanupInterval :: "'b outside \<Rightarrow> server \<Rightarrow> failure + server" where
  "cleanupInterval out st =
     (let t = now out (clock_reads st)
      in sweep out t 0 (st\<lparr>clock_reads := Suc (clock_reads st)\<rparr>))"

subsection \<open>The server as a transition system\<close>

text \<open>
  One step is one piece of code run to completion: a handler on a request (with any
  response object and any behaviour of the engine it awaits), an engine establishing its
  session (at most once per engine, as the library's transport does), an engine
  signalling that it has closed, or a tick of the sweep. A step is labelled with the
  session identifiers it issues.
\<close>

inductive step :: "'b outside \<Rightarrow> server \<Rightarrow> string list \<Rightarrow> server \<Rightarrow> bool" for out :: "'b outside" where
  post: "mcpPostHandler out d req res st = (r, st', res') \<Longrightarrow> step out st [] st'"
| get: "mcpGetHandler out d req res st = (r, st', res') \<Longrightarrow> step out st [] st'"
| delete: "mcpDeleteHandler out d req res st = (r, st', res') \<Longrightarrow> step out st [] st'"
| initialized:
    "e < engines st \<Longrightarrow> map_of (sessionId st) e = None
       \<Longrightarrow> session_initialized out e st = (r, st')
       \<Longrightarrow> step out st [randomUUID (random out (uuids st))] st'"
| closed: "e < engines st \<Longrightarrow> step out st [] (onclose e st)"
| tick: "cleanupInterval out st = Inr st' \<Longrightarrow> step out st [] st'"

inductive steps :: "'b outside \<Rightarrow> server \<Rightarrow> string list \<Rightarrow> server \<Rightarrow> bool" for out :: "'b outside" where
  none: "steps out st [] st"
| more: "steps out st ids st' \<Longrightarrow> step out st' ids' st'' \<Longrightarrow> steps out st (ids @ ids') st''"

definition reachable :: "'b outside \<Rightarrow> server \<Rightarrow> bool" where
  "reachable out st = (\<exists>ids. steps out startHttpServer ids st)"

text \<open>
  What holds of the cache in every reachable state: the keys are distinct and not empty,
  no value is \<^verbatim>\<open>undefined\<close>, and the engine of a session carries the session's key as
  its \<^verbatim>\<open>sessionId\<close>.
\<close>

definition consistent :: "server \<Rightarrow> bool" where
  "consistent st =
     (distinct (map fst (LRUCache_entries (sessions st)))
      \<and> list_all (\<lambda>(k, v). k \<noteq> [] \<and>
            (case v of Undefined \<Rightarrow> False
             | Val info \<Rightarrow> map_of (sessionId st) (transport info) = Some k))
          (LRUCache_entries (sessions st)))"

subsection \<open>Values used in the examples\<close>

definition calm :: "bool outside" where
  "calm = \<lparr>now = (\<lambda>n. 2000000 * int n), random = (\<lambda>n. n), isInitializeRequest = (\<lambda>b. b),
           closing = (\<lambda>e. Rejects), signals_close = (\<lambda>e. True)\<rparr>"

definition fresh :: response where
  "fresh = \<lparr>headers = [], headersSent = False, sent = []\<rparr>"

definition answered :: dispatch where
  "answered = \<lparr>connects = True, commits = True, throws = False\<rparr>"

definition request_to :: "string \<Rightarrow> string option \<Rightarrow> bool \<Rightarrow> bool request" where
  "request_to m sid b =
     \<lparr>req_method = m, req_path = ''/mcp'', req_origin = None, req_session_id = sid, req_body = b\<rparr>"

definition first_id :: string where
  "first_id = ''00000000-0000-4000-8000-000000000000''"

text \<open>The server after one initiating request and the session its engine then
  establishes.\<close>

definition established :: server where
  "established =
     \<lparr>sessions = \<lparr>maxSize = 1000,
                   cache = [Some (first_id, Val \<lparr>transport = 0, lastActivity = 0\<rparr>)]\<rparr>,
      engines = 1, sessionId = [(0, first_id)], close_calls = [], clock_reads = 1, uuids = 1\<rparr>"


subsection \<open>Notions used in the statements and proofs\<close>

text \<open>The response after the error envelope of a rejection (code \<open>-32600\<close>), and after
  the envelope of an internal error (code \<open>-32603\<close>), has been sent on it.\<close>

definition rejected :: "nat \<Rightarrow> string \<Rightarrow> response \<Rightarrow> response" where
  "rejected status message res =
     res\<lparr>headersSent := True,
         sent := sent res @ [Reply status (JsonRpcError JSONRPC_ERROR_INVALID_REQUEST message)]\<rparr>"

definition failed :: "string \<Rightarrow> response \<Rightarrow> response" where
  "failed message res =
     res\<lparr>headersSent := True,
         sent := sent res @ [Reply 500 (JsonRpcError JSONRPC_ERROR_INTERNAL message)]\<rparr>"

text \<open>Two behaviours of an engine whose \<^verbatim>\<open>handleRequest\<close> throws: before anything was
  sent, and after the headers were sent.\<close>

definition failing :: dispatch where
  "failing = \<lparr>connects = True, commits = False, throws = True\<rparr>"

definition failing_late :: dispatch where
  "failing_late = \<lparr>connects = True, commits = True, throws = True\<rparr>"

text \<open>Deleting a key and setting it again, as \<^verbatim>\<open>get\<close> and \<^verbatim>\<open>set\<close> of the cache do on a
  key that is present; and the server with another Map in its cache.\<close>

definition promote :: "'v jsmap \<Rightarrow> string \<Rightarrow> 'v js \<Rightarrow> 'v jsmap" where
  "promote m k v = jsmap_set (jsmap_delete m k) k v"

definition with_cache :: "server \<Rightarrow> SessionInfo jsmap \<Rightarrow> server" where
  "with_cache st m = st\<lparr>sessions := (sessions st)\<lparr>cache := m\<rparr>\<rparr>"

text \<open>
  What the loop of the sweep, started at slot \<open>i\<close> in state \<open>st\<close> with the clock reading
  \<open>t\<close>, has achieved when it ends in \<open>st'\<close>: the invariant holds, no key was added, and
  every session that was idle in a slot from \<open>i\<close> on is gone and its engine was told to
  close.
\<close>

definition swept :: "int \<Rightarrow> nat \<Rightarrow> server \<Rightarrow> server \<Rightarrow> bool" where
  "swept t i st st' =
     (consistent st' \<and> sessionId st' = sessionId st \<and> engines st' = engines st
      \<and> clock_reads st' = clock_reads st \<and> uuids st' = uuids st
      \<and> (\<forall>k. jsmap_has (cache (sessions st')) k \<longrightarrow> jsmap_has (cache (sessions st)) k)
      \<and> (\<exists>cs. close_calls st' = close_calls st @ cs)
      \<and> (\<forall>j k info. i \<le> j \<and> j < length (cache (sessions st))
            \<and> cache (sessions st) ! j = Some (k, Val info)
            \<and> t - lastActivity info > SESSION_IDLE_TIMEOUT_MS \<longrightarrow>
              \<not> jsmap_has (cache (sessions st')) k
            \<and> transport info \<in> set (drop (length (close_calls st)) (close_calls st'))))"

section \<open>The Map and the cache: lemmas\<close>

lemma jsmap_has_entries: "jsmap_has m k \<longleftrightarrow> k \<in> fst ` set (jsmap_entries m)"
  by (induction m k rule: jsmap_has.induct) auto

lemma jsmap_get_entries:
  "jsmap_get m k = (case map_of (jsmap_entries m) k of None \<Rightarrow> Undefined | Some v \<Rightarrow> v)"
  by (induction m k rule: jsmap_get.induct) auto

lemma jsmap_delete_entries:
  "distinct (map fst (jsmap_entries m)) \<Longrightarrow>
   jsmap_entries (jsmap_delete m k) = filter (\<lambda>e. fst e \<noteq> k) (jsmap_entries m)"
proof (induction m k rule: jsmap_delete.induct)
  case (3 k' v m k)
  show ?case
  proof (cases "k' = k")
    case True
    with 3 have "\<forall>e \<in> set (jsmap_entries m). fst e \<noteq> k" by auto
    then have "filter (\<lambda>e. fst e \<noteq> k) (jsmap_entries m) = jsmap_entries m"
      by (simp add: filter_id_conv)
    with True show ?thesis by simp
  next
    case False
    with 3 show ?thesis by simp
  qed
qed simp_all

lemma jsmap_set_entries_absent:
  "\<not> jsmap_has m k \<Longrightarrow> jsmap_entries (jsmap_set m k v) = jsmap_entries m @ [(k, v)]"
  by (induction m k v rule: jsmap_set.induct) auto

lemma jsmap_first_key_entries:
  "jsmap_first_key m = (case jsmap_entries m of [] \<Rightarrow> None | e # es \<Rightarrow> Some (fst e))"
  by (induction m rule: jsmap_first_key.induct) auto

lemma jsmap_has_delete:
  "distinct (map fst (jsmap_entries m)) \<Longrightarrow> jsmap_has (jsmap_delete m k) k' \<longleftrightarrow> (k' \<noteq> k \<and> jsmap_has m k')"
  by (auto simp: jsmap_has_entries jsmap_delete_entries)

lemma jsmap_reinsert_entries:
  assumes "distinct (map fst (jsmap_entries m))"
  shows "jsmap_entries (jsmap_set (jsmap_delete m k) k v) = filter (\<lambda>e. fst e \<noteq> k) (jsmap_entries m) @ [(k, v)]"
  using assms by (simp add: jsmap_set_entries_absent jsmap_has_delete jsmap_delete_entries)

lemma run_append:
  "run h (xs @ ys) s = (case run h xs s of (Some e, s') \<Rightarrow> (Some e, s') | (None, s') \<Rightarrow> run h ys s')"
  by (induction xs arbitrary: s) (auto split: prod.splits option.splits)




lemma filter_hd_distinct:
  "distinct (map fst (e # es)) \<Longrightarrow> filter (\<lambda>x. fst x \<noteq> fst e) (e # es) = es"
proof -
  assume "distinct (map fst (e # es))"
  then have "fst e \<notin> fst ` set es" by simp
  then have "\<forall>x \<in> set es. fst x \<noteq> fst e" by (metis imageI)
  then show ?thesis by (simp add: filter_id_conv)
qed





lemma jsmap_delete_first:
  "jsmap_entries m = (k0, v0) # rest \<Longrightarrow> jsmap_entries (jsmap_delete m k0) = rest"
  by (induction m k0 rule: jsmap_delete.induct) auto

lemma jsmap_has_delete_imp: "jsmap_has (jsmap_delete m k) k' \<Longrightarrow> jsmap_has m k'"
  by (induction m k rule: jsmap_delete.induct) (auto split: if_splits)

lemma jsmap_has_set: "jsmap_has (jsmap_set m k v) k' \<longleftrightarrow> k' = k \<or> jsmap_has m k'"
  by (induction m k v rule: jsmap_set.induct) auto

lemma jsmap_get_set_same: "jsmap_get (jsmap_set m k v) k = v"
  by (induction m k v rule: jsmap_set.induct) auto

lemma jsmap_first_entry:
  "jsmap_entries m = (k0, v0) # rest \<Longrightarrow> jsmap_first_key m = Some k0 \<and> jsmap_get m k0 = v0"
  by (induction m rule: jsmap_entries.induct) auto

text \<open>Lines 57 to 68 on a full cache and a key that is absent: the first entry goes, and
  only it.\<close>

lemma LRUCache_evict_oldest:
  assumes es: "LRUCache_entries c = (k0, v0) # rest"
    and absent: "\<not> LRUCache_has c key"
    and full: "maxSize c \<le> real (LRUCache_size c)"
  shows "LRUCache_evict c key = Inr (c\<lparr>cache := jsmap_delete (cache c) k0\<rparr>, Some (k0, v0))"
    and "LRUCache_entries (c\<lparr>cache := jsmap_delete (cache c) k0\<rparr>) = rest"
    and "\<not> LRUCache_has (c\<lparr>cache := jsmap_delete (cache c) k0\<rparr>) key"
proof -
  from es have e: "jsmap_entries (cache c) = (k0, v0) # rest"
    by (simp add: LRUCache_entries_def)
  from jsmap_first_entry[OF e] absent full
  show "LRUCache_evict c key = Inr (c\<lparr>cache := jsmap_delete (cache c) k0\<rparr>, Some (k0, v0))"
    by (simp add: LRUCache_evict_def LRUCache_has_def LRUCache_size_def)
  show "LRUCache_entries (c\<lparr>cache := jsmap_delete (cache c) k0\<rparr>) = rest"
    using jsmap_delete_first[OF e] by (simp add: LRUCache_entries_def)
  show "\<not> LRUCache_has (c\<lparr>cache := jsmap_delete (cache c) k0\<rparr>) key"
    using absent jsmap_has_delete_imp[of "cache c" k0 key] by (auto simp: LRUCache_has_def)
qed

lemma LRUCache_insert_absent:
  "\<not> LRUCache_has c key \<Longrightarrow> LRUCache_entries (LRUCache_insert c key v) = LRUCache_entries c @ [(key, v)]"
  by (simp add: LRUCache_insert_def LRUCache_entries_def LRUCache_has_def jsmap_set_entries_absent)








subsection \<open>Claim C1\<close>




text \<open>
  It also fails for a capacity that is not a whole number: with \<^verbatim>\<open>maxSize\<close> 1.5 and no
  hook, the test of line 59 lets the second entry in, and the size 2 exceeds 1.5.
\<close>

theorem fractional_capacity_overflows:
  "(1::real) \<le> 3 / 2
   \<and> run None (sets [(''a'', Val (1::nat)), (''b'', Val 2)]) (LRUCache_new (3 / 2), ())
     = (None, (\<lparr>maxSize = 3 / 2, cache = [Some (''a'', Val 1), Some (''b'', Val 2)]\<rparr>, ()))
   \<and> 3 / 2 < real (LRUCache_size \<lparr>maxSize = 3 / 2, cache = [Some (''a'', Val (1::nat)), Some (''b'', Val 2)]\<rparr>)"
  by (simp add: sets_def LRUCache_new_def LRUCache_set_def LRUCache_evict_def LRUCache_insert_def
      LRUCache_size_def jsmap_size_def)

subsection \<open>Claim C2\<close>

lemma run_deletes: "\<exists>c'. run h (map Delete keys) (c, w) = (None, (c', w))"
  by (induction keys arbitrary: c) auto

text \<open>
  C2, as amended. A \<^verbatim>\<open>set\<close> of a key that is not present, on a full cache whose oldest
  value is not \<^verbatim>\<open>undefined\<close>, removes the oldest entry and then applies the hook once, to
  the oldest key and its value, before it returns: what \<^verbatim>\<open>set\<close> returns is the outcome
  of that one application, followed by the insertion when the hook has returned. A hook
  that records its calls has recorded exactly one more, and the cache then holds the
  other entries and the new one. When the oldest value is \<^verbatim>\<open>undefined\<close> the entry is
  removed all the same, the new one is inserted, and the hook is not called (line 69). A
  \<^verbatim>\<open>set\<close> of a key that is present and a \<^verbatim>\<open>delete\<close>, or any number of them, return
  without calling the hook: the environment is as it was.
\<close>

theorem onEvict_called_once:
  "(\<not> LRUCache_has c key \<and> maxSize c \<le> real (LRUCache_size c)
      \<and> LRUCache_entries c = (k0, Val v0) # rest \<longrightarrow>
        (\<exists>c1. LRUCache_evict c key = Inr (c1, Some (k0, Val v0))
            \<and> LRUCache_entries c1 = rest
            \<and> LRUCache_set (Some hook) c key v w =
                (case hook k0 v0 (c1, w) of
                   (Some e, s) \<Rightarrow> (Some e, s)
                 | (None, (c2, w2)) \<Rightarrow> (None, (LRUCache_insert c2 key v, w2)))
            \<and> LRUCache_set (Some record_call) c key v calls =
                 (None, (LRUCache_insert c1 key v, calls @ [(k0, v0)]))
            \<and> LRUCache_entries (LRUCache_insert c1 key v) = rest @ [(key, v)]))
 \<and> (\<not> LRUCache_has c key \<and> maxSize c \<le> real (LRUCache_size c)
      \<and> LRUCache_entries c = (k0, Undefined) # rest \<longrightarrow>
        (\<exists>c'. LRUCache_set (Some hook) c key v w = (None, (c', w))
            \<and> LRUCache_entries c' = rest @ [(key, v)]))
 \<and> (LRUCache_has c key \<longrightarrow>
        (\<exists>c'. LRUCache_set (Some hook) c key v w = (None, (c', w))
            \<and> LRUCache_has c' key \<and> jsmap_get (cache c') key = v))
 \<and> invoke (Some hook) (Delete key) (c, w) = (None, (snd (LRUCache_delete c key), w))
 \<and> (\<exists>c'. run (Some hook) (map Delete keys) (c, w) = (None, (c', w)))"
proof -
  have defined: "\<exists>c1. LRUCache_evict c key = Inr (c1, Some (k0, Val v0))
            \<and> LRUCache_entries c1 = rest
            \<and> LRUCache_set (Some hook) c key v w =
                (case hook k0 v0 (c1, w) of
                   (Some e, s) \<Rightarrow> (Some e, s)
                 | (None, (c2, w2)) \<Rightarrow> (None, (LRUCache_insert c2 key v, w2)))
            \<and> LRUCache_set (Some record_call) c key v calls =
                 (None, (LRUCache_insert c1 key v, calls @ [(k0, v0)]))
            \<and> LRUCache_entries (LRUCache_insert c1 key v) = rest @ [(key, v)]"
    if absent: "\<not> LRUCache_has c key" and full: "maxSize c \<le> real (LRUCache_size c)"
      and es: "LRUCache_entries c = (k0, Val v0) # rest"
  proof -
    let ?c1 = "c\<lparr>cache := jsmap_delete (cache c) k0\<rparr>"
    note ev = LRUCache_evict_oldest[OF es absent full]
    have "LRUCache_set (Some hook) c key v w =
                (case hook k0 v0 (?c1, w) of
                   (Some e, s) \<Rightarrow> (Some e, s)
                 | (None, (c2, w2)) \<Rightarrow> (None, (LRUCache_insert c2 key v, w2)))"
      by (simp add: LRUCache_set_def ev(1))
    moreover have "LRUCache_set (Some record_call) c key v calls =
                 (None, (LRUCache_insert ?c1 key v, calls @ [(k0, v0)]))"
      by (simp add: LRUCache_set_def ev(1) record_call_def)
    moreover have "LRUCache_entries (LRUCache_insert ?c1 key v) = rest @ [(key, v)]"
      using LRUCache_insert_absent[OF ev(3)] ev(2) by simp
    ultimately show ?thesis using ev(1,2) by (intro exI[of _ ?c1]) simp
  qed
  have undefined: "\<exists>c'. LRUCache_set (Some hook) c key v w = (None, (c', w))
            \<and> LRUCache_entries c' = rest @ [(key, v)]"
    if absent: "\<not> LRUCache_has c key" and full: "maxSize c \<le> real (LRUCache_size c)"
      and es: "LRUCache_entries c = (k0, Undefined) # rest"
  proof -
    let ?c1 = "c\<lparr>cache := jsmap_delete (cache c) k0\<rparr>"
    note ev = LRUCache_evict_oldest[OF es absent full]
    have "LRUCache_set (Some hook) c key v w = (None, (LRUCache_insert ?c1 key v, w))"
      by (simp add: LRUCache_set_def ev(1))
    moreover have "LRUCache_entries (LRUCache_insert ?c1 key v) = rest @ [(key, v)]"
      using LRUCache_insert_absent[OF ev(3)] ev(2) by simp
    ultimately show ?thesis by (intro exI[of _ "LRUCache_insert ?c1 key v"]) simp
  qed
  have present: "\<exists>c'. LRUCache_set (Some hook) c key v w = (None, (c', w))
            \<and> LRUCache_has c' key \<and> jsmap_get (cache c') key = v"
    if "LRUCache_has c key"
  proof -
    let ?c' = "c\<lparr>cache := jsmap_set (jsmap_delete (cache c) key) key v\<rparr>"
    have "LRUCache_set (Some hook) c key v w = (None, (?c', w))"
      using that by (simp add: LRUCache_set_def LRUCache_evict_def LRUCache_has_def LRUCache_insert_def)
    moreover have "LRUCache_has ?c' key \<and> jsmap_get (cache ?c') key = v"
      by (simp add: LRUCache_has_def jsmap_has_set jsmap_get_set_same)
    ultimately show ?thesis by (intro exI[of _ ?c']) simp
  qed
  have "invoke (Some hook) (Delete key) (c, w) = (None, (snd (LRUCache_delete c key), w))"
    by simp
  with defined undefined present run_deletes[of "Some hook" keys c w]
  show ?thesis by blast
qed

theorem onEvict_called_once_witness:
  "\<not> LRUCache_has \<lparr>maxSize = 1, cache = [Some (''a'', Val (7::nat))]\<rparr> ''b''
   \<and> LRUCache_has \<lparr>maxSize = 1, cache = [Some (''a'', Val (7::nat))]\<rparr> ''a''
   \<and> LRUCache_set (Some record_call) \<lparr>maxSize = 1, cache = [Some (''a'', Val (7::nat))]\<rparr> ''b'' (Val 8) []
        = (None, (\<lparr>maxSize = 1, cache = [None, Some (''b'', Val 8)]\<rparr>, [(''a'', 7)]))
   \<and> LRUCache_set (Some record_and_throw) \<lparr>maxSize = 1, cache = [Some (''a'', Val (7::nat))]\<rparr> ''b'' (Val 8) []
        = (Some (Thrown ''hook''), (\<lparr>maxSize = 1, cache = [None]\<rparr>, [(''a'', 7)]))
   \<and> LRUCache_set (Some record_call) \<lparr>maxSize = 1, cache = [Some (''a'', Val (7::nat))]\<rparr> ''a'' (Val 8) []
        = (None, (\<lparr>maxSize = 1, cache = [None, Some (''a'', Val 8)]\<rparr>, []))
   \<and> LRUCache_set (Some record_call) \<lparr>maxSize = 1, cache = [Some (''a'', Undefined)]\<rparr> ''b'' (Val (8::nat)) []
        = (None, (\<lparr>maxSize = 1, cache = [None, Some (''b'', Val 8)]\<rparr>, []))"
  using onEvict_called_once[of "\<lparr>maxSize = 1, cache = [Some (''a'', Val (7::nat))]\<rparr>" "''b''" "''a''" 7 "[]"
      record_and_throw "Val 8" "[]" "[]" "[]"]
    onEvict_called_once[of "\<lparr>maxSize = 1, cache = [Some (''a'', Val (7::nat))]\<rparr>" "''a''" "''a''" 7 "[]"
      record_call "Val 8" "[]" "[]" "[]"]
    onEvict_called_once[of "\<lparr>maxSize = 1, cache = [Some (''a'', Undefined)]\<rparr>" "''b''" "''a''" "7::nat" "[]"
      record_call "Val 8" "[]" "[]" "[]"]
  by (simp add: LRUCache_has_def LRUCache_size_def LRUCache_entries_def jsmap_size_def
      LRUCache_evict_def LRUCache_insert_def LRUCache_set_def record_call_def record_and_throw_def)

text \<open>
  C2 as it was stated fails where the evicted value is \<^verbatim>\<open>undefined\<close>: with capacity 1,
  \<^verbatim>\<open>set("a", undefined)\<close> and then \<^verbatim>\<open>set("b", 1)\<close> evict \<^verbatim>\<open>a\<close>, and the recording hook
  has recorded no call.
\<close>

theorem onEvict_skipped_for_undefined:
  "run (Some record_call) (sets [(''a'', Undefined), (''b'', Val (1::nat))]) (LRUCache_new 1, [])
     = (None, (\<lparr>maxSize = 1, cache = [None, Some (''b'', Val 1)]\<rparr>, []))"
  by (simp add: sets_def LRUCache_new_def LRUCache_set_def LRUCache_evict_def LRUCache_insert_def
      jsmap_size_def record_call_def)

subsection \<open>Claim C3\<close>

lemma invoke_Has: "invoke h (Has k) s = (None, s)"
  by (cases s) simp

lemma run_replicate_Has: "run h (replicate n (Has k) @ calls) s = run h calls s"
  by (induction n) (simp_all add: invoke_Has)

text \<open>
  C3. Two runs from the same cache and environment, one with \<^verbatim>\<open>has\<close> calls and one with
  those calls left out, end in the same cache (the same slots, hence the same order of
  entries) and the same environment (the same hook calls): for \<^verbatim>\<open>has\<close> calls anywhere
  in any sequence of calls, and in particular for \<open>n\<close> calls of \<^verbatim>\<open>has(k)\<close> between two
  \<^verbatim>\<open>set\<close> calls; the second \<^verbatim>\<open>set\<close> starts from the same state in both runs.
\<close>

theorem has_leaves_order:
  "run h (filter (\<lambda>call. \<not> is_Has call) calls) s = run h calls s
   \<and> run h (Set k1 v1 # replicate n (Has k) @ [Set k2 v2]) s = run h [Set k1 v1, Set k2 v2] s
   \<and> run h (Set k1 v1 # replicate n (Has k)) s = run h [Set k1 v1] s"
proof -
  have "run h (filter (\<lambda>call. \<not> is_Has call) calls) s = run h calls s"
  proof (induction calls arbitrary: s)
    case Nil
    show ?case by simp
  next
    case (Cons call calls)
    show ?case
    proof (cases call)
      case (Has k)
      then show ?thesis using Cons by (simp add: invoke_Has)
    qed (use Cons in \<open>auto split: prod.splits option.splits\<close>)
  qed
  moreover have "run h (Set k1 v1 # replicate n (Has k) @ calls') s = run h (Set k1 v1 # calls') s"
    for calls'
    by (simp add: run_replicate_Has split: prod.splits option.splits)
  from this[of "[Set k2 v2]"] this[of "[]"]
  have "run h (Set k1 v1 # replicate n (Has k) @ [Set k2 v2]) s = run h [Set k1 v1, Set k2 v2] s"
    "run h (Set k1 v1 # replicate n (Has k)) s = run h [Set k1 v1] s"
    by simp_all
  ultimately show ?thesis by simp
qed

theorem has_leaves_order_witness:
  "run (Some record_call) [Set ''a'' (Val (1::nat)), Set ''b'' (Val 2), Has ''a'', Has ''a'', Set ''c'' (Val 3)]
        (LRUCache_new 2, [])
     = (None, (\<lparr>maxSize = 2, cache = [None, Some (''b'', Val 2), Some (''c'', Val 3)]\<rparr>, [(''a'', 1)]))"
proof -
  have "run (Some record_call) [Set ''a'' (Val (1::nat)), Set ''b'' (Val 2), Set ''c'' (Val 3)]
        (LRUCache_new 2, [])
     = (None, (\<lparr>maxSize = 2, cache = [None, Some (''b'', Val 2), Some (''c'', Val 3)]\<rparr>, [(''a'', 1)]))"
    by (simp add: LRUCache_new_def LRUCache_set_def LRUCache_evict_def LRUCache_insert_def
      jsmap_size_def record_call_def)
  then show ?thesis
    using has_leaves_order[of "Some record_call"
        "[Set ''a'' (Val (1::nat)), Set ''b'' (Val 2), Has ''a'', Has ''a'', Set ''c'' (Val 3)]"
        "(LRUCache_new 2, [])"]
    by simp
qed

subsection \<open>Claim C4\<close>

lemma startsWith_iff: "startsWith s p \<longleftrightarrow> (\<exists>rest. s = p @ rest)"
  unfolding startsWith_def
  by (metis append_eq_conv_conj append_take_drop_id)

lemma endsWith_slash: "endsWith a ''/'' \<longleftrightarrow> (a \<noteq> [] \<and> last a = CHR ''/'')"
proof (cases a rule: rev_cases)
  case Nil
  then show ?thesis by (simp add: endsWith_def)
next
  case (snoc ys y)
  then show ?thesis by (auto simp: endsWith_def)
qed

lemma startsWith_sep: "startsWith r (a @ ''/'') \<longleftrightarrow> (\<exists>rest. r = a @ rest \<and> rest \<noteq> [] \<and> hd rest = CHR ''/'')"
proof
  assume "startsWith r (a @ ''/'')"
  then obtain rest where "r = (a @ ''/'') @ rest" unfolding startsWith_iff by blast
  then have "r = a @ (CHR ''/'' # rest)" by simp
  then show "\<exists>rest. r = a @ rest \<and> rest \<noteq> [] \<and> hd rest = CHR ''/''" by (intro exI[of _ "CHR ''/'' # rest"]) simp
next
  assume "\<exists>rest. r = a @ rest \<and> rest \<noteq> [] \<and> hd rest = CHR ''/''"
  then obtain rest where r: "r = a @ rest" "rest \<noteq> []" "hd rest = CHR ''/''" by blast
  then obtain t where "rest = CHR ''/'' # t" by (cases rest) auto
  with r have "r = (a @ ''/'') @ t" by simp
  then show "startsWith r (a @ ''/'')" unfolding startsWith_iff by blast
qed

lemma matches_iff: "matchesAllowedPathBoundary r a = boundary_contract r a"
proof (cases "endsWith a ''/''")
  case True
  then show ?thesis
    unfolding matchesAllowedPathBoundary_def boundary_contract_def
    by (auto simp: endsWith_slash startsWith_iff)
next
  case False
  then show ?thesis
    unfolding matchesAllowedPathBoundary_def boundary_contract_def
    by (auto simp: endsWith_slash startsWith_sep)
qed

text \<open>
  C4. \<^verbatim>\<open>matchesAllowedPathBoundary\<close> answers true exactly when the request path is the
  allowed prefix, or starts with the prefix followed immediately by \<^verbatim>\<open>/\<close>, where a prefix
  that already ends in \<^verbatim>\<open>/\<close> is matched as a plain prefix; and the six examples of the
  specification evaluate as stated.
\<close>

theorem matchesAllowedPathBoundary_contract:
  "matchesAllowedPathBoundary requestPath allowedPrefix = boundary_contract requestPath allowedPrefix
   \<and> matchesAllowedPathBoundary ''/mcp'' ''/mcp''
   \<and> matchesAllowedPathBoundary ''/mcp/x'' ''/mcp''
   \<and> \<not> matchesAllowedPathBoundary ''/mcp-admin'' ''/mcp''
   \<and> \<not> matchesAllowedPathBoundary ''/a'' ''/a/''
   \<and> matchesAllowedPathBoundary ''/a/'' ''/a/''
   \<and> matchesAllowedPathBoundary ''/a/b'' ''/a/''"
  by (simp add: matches_iff) (simp add: boundary_contract_def)

theorem matchesAllowedPathBoundary_contract_witness:
  "matchesAllowedPathBoundary ''/mcp/tools'' ''/mcp'' \<and> \<not> matchesAllowedPathBoundary ''/mcpx'' ''/mcp''
   \<and> isCorsAllowedPath ''/mcp/'' \<and> \<not> isCorsAllowedPath ''/mcp-admin''"
proof -
  have "boundary_contract ''/mcp/tools'' ''/mcp''"
    unfolding boundary_contract_def by (intro disjI2 exI[of _ "''/tools''"]) simp
  moreover have "\<not> boundary_contract ''/mcpx'' ''/mcp''"
    unfolding boundary_contract_def by auto
  moreover have "isCorsAllowedPath ''/mcp/'' \<and> \<not> isCorsAllowedPath ''/mcp-admin''"
    by (simp add: isCorsAllowedPath_def CORS_ALLOWED_PATHS_def matchesAllowedPathBoundary_def
        startsWith_def endsWith_def)
  ultimately show ?thesis
    using matchesAllowedPathBoundary_contract[of "''/mcp/tools''" "''/mcp''"]
      matchesAllowedPathBoundary_contract[of "''/mcpx''" "''/mcp''"]
    by simp
qed


section \<open>The server: lemmas\<close>

subsection \<open>Slots of the Map\<close>

lemma jsmap_get_absent: "\<not> jsmap_has m k \<Longrightarrow> jsmap_get m k = Undefined"
  by (induction m k rule: jsmap_get.induct) auto

lemma jsmap_get_present: "jsmap_get m k \<noteq> Undefined \<Longrightarrow> jsmap_has m k"
  using jsmap_get_absent by blast

lemma jsmap_delete_absent: "\<not> jsmap_has m k \<Longrightarrow> jsmap_delete m k = m"
  by (induction m k rule: jsmap_delete.induct) auto

lemma jsmap_set_absent: "\<not> jsmap_has m k \<Longrightarrow> jsmap_set m k v = m @ [Some (k, v)]"
  by (induction m k v rule: jsmap_set.induct) auto

lemma jsmap_entries_append: "jsmap_entries (m @ m') = jsmap_entries m @ jsmap_entries m'"
  by (induction m rule: jsmap_entries.induct) auto

lemma jsmap_has_append: "jsmap_has (m @ m') k \<longleftrightarrow> jsmap_has m k \<or> jsmap_has m' k"
  by (simp add: jsmap_has_entries jsmap_entries_append image_Un)

lemma jsmap_delete_append_absent:
  "\<not> jsmap_has m k \<Longrightarrow> jsmap_delete (m @ m') k = m @ jsmap_delete m' k"
  by (induction m k rule: jsmap_delete.induct) auto

lemma jsmap_has_slot: "i < length m \<Longrightarrow> m ! i = Some (k, v) \<Longrightarrow> jsmap_has m k"
proof (induction m k arbitrary: i rule: jsmap_has.induct)
  case (2 m k)
  then show ?case by (cases i) auto
next
  case (3 k' v' m k)
  then show ?case by (cases i) auto
qed simp

lemma jsmap_delete_slot:
  "i < length m \<Longrightarrow> m ! i = Some (k, v) \<Longrightarrow> distinct (map fst (jsmap_entries m))
     \<Longrightarrow> jsmap_delete m k = m[i := None]"
proof (induction m k arbitrary: i rule: jsmap_delete.induct)
  case (2 m k)
  then show ?case by (cases i) auto
next
  case (3 k' v' m k)
  show ?case
  proof (cases i)
    case 0
    with 3 show ?thesis by simp
  next
    case (Suc j)
    with 3 have j: "j < length m" "m ! j = Some (k, v)" by auto
    then have "k \<in> fst ` set (jsmap_entries m)"
      using jsmap_has_slot[of j m k v] by (simp add: jsmap_has_entries)
    with 3(4) have "k' \<noteq> k" by auto
    with 3 j Suc show ?thesis by simp
  qed
qed simp

lemma jsmap_get_slot:
  "i < length m \<Longrightarrow> m ! i = Some (k, v) \<Longrightarrow> distinct (map fst (jsmap_entries m))
     \<Longrightarrow> jsmap_get m k = v"
proof (induction m k arbitrary: i rule: jsmap_get.induct)
  case (2 m k)
  then show ?case by (cases i) auto
next
  case (3 k' v' m k)
  show ?case
  proof (cases i)
    case 0
    with 3 show ?thesis by simp
  next
    case (Suc j)
    with 3 have j: "j < length m" "m ! j = Some (k, v)" by auto
    then have "k \<in> fst ` set (jsmap_entries m)"
      using jsmap_has_slot[of j m k v] by (simp add: jsmap_has_entries)
    with 3(4) have "k' \<noteq> k" by auto
    with 3 j Suc show ?thesis by simp
  qed
qed simp

lemma set_jsmap_entries: "set (jsmap_entries m) = {e. Some e \<in> set m}"
  by (induction m rule: jsmap_entries.induct) auto

lemma jsmap_entry_slot:
  "e \<in> set (jsmap_entries m) \<Longrightarrow> \<exists>i < length m. m ! i = Some e"
  by (simp add: set_jsmap_entries in_set_conv_nth)

lemma jsmap_get_entry:
  "distinct (map fst (jsmap_entries m)) \<Longrightarrow> (k, v) \<in> set (jsmap_entries m) \<Longrightarrow> jsmap_get m k = v"
  using jsmap_entry_slot[of "(k, v)" m] jsmap_get_slot by blast

lemma jsmap_has_delete_other: "k' \<noteq> k \<Longrightarrow> jsmap_has (jsmap_delete m k) k' = jsmap_has m k'"
  by (induction m k rule: jsmap_delete.induct) auto

subsection \<open>Responses\<close>

lemma truthy_Some: "truthy (Some s) \<longleftrightarrow> s \<noteq> []"
  by (simp add: truthy_def)

lemma sessions_get_absent:
  "\<not> LRUCache_has (sessions st) k \<Longrightarrow> sessions_get k st = (Undefined, st)"
  by (simp add: sessions_get_def LRUCache_get_def LRUCache_has_def jsmap_get_absent)

lemma post_rejects:
  "(req_session_id req = Some sid \<and> sid \<noteq> [] \<and> \<not> LRUCache_has (sessions st) sid \<longrightarrow>
       mcpPostHandler out d req res st =
         (None, st, if headersSent res then res else rejected 404 ''Session not found'' res))
   \<and> (\<not> truthy (req_session_id req) \<and> \<not> isInitializeRequest out (req_body req) \<longrightarrow>
       mcpPostHandler out d req res st =
         (None, st, if headersSent res then res
                    else rejected 400 ''Bad Request: No valid session ID provided'' res))"
  by (auto simp: mcpPostHandler_def post_try_def truthy_def string_of_def sessions_get_absent
      settle_def invalid_request_def json_def internal_error_def rejected_def)

subsection \<open>Reuse of a session\<close>

lemma jsmap_get_promote: "jsmap_get (promote m k v) k = v"
  by (simp add: promote_def jsmap_get_set_same)

lemma jsmap_has_promote:
  "jsmap_has m k \<Longrightarrow> jsmap_has (promote m k v) k' = jsmap_has m k'"
  by (cases "k' = k") (simp_all add: promote_def jsmap_has_set jsmap_has_delete_other)

lemma jsmap_entries_promote:
  "distinct (map fst (jsmap_entries m)) \<Longrightarrow>
   jsmap_entries (promote m k v) = filter (\<lambda>e. fst e \<noteq> k) (jsmap_entries m) @ [(k, v)]"
  by (simp add: promote_def jsmap_reinsert_entries)

lemma distinct_filter_keys:
  "distinct (map fst es) \<Longrightarrow> distinct (map fst (filter (\<lambda>e. fst e \<noteq> k) es @ [(k, v)]))"
  by (induction es) auto

lemma distinct_promote:
  "distinct (map fst (jsmap_entries m)) \<Longrightarrow> distinct (map fst (jsmap_entries (promote m k v)))"
  using distinct_filter_keys[of "jsmap_entries m" k v] by (simp add: jsmap_entries_promote)

lemma sessions_get_Val:
  "jsmap_get (cache (sessions st)) k = Val info \<Longrightarrow>
   sessions_get k st = (Val info, with_cache st (promote (cache (sessions st)) k (Val info)))"
  by (simp add: sessions_get_def LRUCache_get_def promote_def with_cache_def Let_def)

lemma sessions_get_Undefined:
  "jsmap_get (cache (sessions st)) k = Undefined \<Longrightarrow> sessions_get k st = (Undefined, st)"
  by (simp add: sessions_get_def LRUCache_get_def)

lemma LRUCache_evict_present:
  "jsmap_has (cache c) k \<Longrightarrow> LRUCache_evict c k = Inr (c\<lparr>cache := jsmap_delete (cache c) k\<rparr>, None)"
  by (simp add: LRUCache_evict_def)

lemma sessions_set_present:
  "jsmap_has (cache (sessions st)) k \<Longrightarrow>
   sessions_set out k info st = (None, with_cache st (promote (cache (sessions st)) k (Val info)))"
  by (simp add: sessions_set_def LRUCache_evict_present LRUCache_insert_def promote_def with_cache_def)

lemma with_cache_simps:
  "cache (sessions (with_cache st m)) = m"
  "maxSize (sessions (with_cache st m)) = maxSize (sessions st)"
  "engines (with_cache st m) = engines st"
  "sessionId (with_cache st m) = sessionId st"
  "close_calls (with_cache st m) = close_calls st"
  "clock_reads (with_cache st m) = clock_reads st"
  "uuids (with_cache st m) = uuids st"
  "with_cache (with_cache st m) m' = with_cache st m'"
  "with_cache (st\<lparr>clock_reads := n\<rparr>) m = (with_cache st m)\<lparr>clock_reads := n\<rparr>"
  "with_cache (st\<lparr>close_calls := cs\<rparr>) m = (with_cache st m)\<lparr>close_calls := cs\<rparr>"
  by (simp_all add: with_cache_def)

lemma touchSession_Val:
  assumes "jsmap_get (cache (sessions st)) k = Val info"
  shows "touchSession out k st =
     (None, (with_cache st
        (promote (promote (cache (sessions st)) k (Val info)) k
           (Val (info\<lparr>lastActivity := now out (clock_reads st)\<rparr>))))
        \<lparr>clock_reads := Suc (clock_reads st)\<rparr>)"
proof -
  let ?m1 = "promote (cache (sessions st)) k (Val info)"
  have "jsmap_has ?m1 k" by (simp add: promote_def jsmap_has_set)
  then have "jsmap_has (cache (sessions ((with_cache st ?m1)\<lparr>clock_reads := Suc (clock_reads st)\<rparr>))) k"
    by (simp add: with_cache_simps)
  from sessions_set_present[OF this, of out "info\<lparr>lastActivity := now out (clock_reads st)\<rparr>"]
  show ?thesis
    using assms by (simp add: touchSession_def sessions_get_Val with_cache_simps Let_def)
qed

text \<open>The state after the part of a handler that precedes the dispatch, for a request
  that resolves to a session.\<close>

lemma post_try_reuse:
  assumes "req_session_id req = Some sid" "sid \<noteq> []"
    and "jsmap_get (cache (sessions st)) sid = Val info"
  shows "post_try out d req res st =
     ((if throws d then Some DispatchFailed else None),
      (with_cache st
        (promote (promote (promote (cache (sessions st)) sid (Val info)) sid (Val info)) sid
           (Val (info\<lparr>lastActivity := now out (clock_reads st)\<rparr>))))
        \<lparr>clock_reads := Suc (clock_reads st)\<rparr>,
      snd (handleRequest d res))"
proof -
  let ?st1 = "with_cache st (promote (cache (sessions st)) sid (Val info))"
  have "jsmap_get (cache (sessions ?st1)) sid = Val info"
    by (simp add: with_cache_simps jsmap_get_promote)
  from touchSession_Val[OF this, of out]
  show ?thesis
    using assms
    by (simp add: post_try_def truthy_def string_of_def sessions_get_Val with_cache_simps
        handleRequest_def)
qed

lemma get_reuse:
  assumes "req_session_id req = Some sid" "sid \<noteq> []"
    and "jsmap_get (cache (sessions st)) sid = Val info"
  shows "mcpGetHandler out d req res st =
     ((if throws d then Some DispatchFailed else None),
      (with_cache st
        (promote (promote (promote (cache (sessions st)) sid (Val info)) sid (Val info)) sid
           (Val (info\<lparr>lastActivity := now out (clock_reads st)\<rparr>))))
        \<lparr>clock_reads := Suc (clock_reads st)\<rparr>,
      snd (handleRequest d res))"
proof -
  let ?st1 = "with_cache st (promote (cache (sessions st)) sid (Val info))"
  have "jsmap_get (cache (sessions ?st1)) sid = Val info"
    by (simp add: with_cache_simps jsmap_get_promote)
  from touchSession_Val[OF this, of out]
  show ?thesis
    using assms
    by (simp add: mcpGetHandler_def truthy_def string_of_def sessions_get_Val with_cache_simps
        handleRequest_def)
qed

lemma delete_reuse:
  assumes "req_session_id req = Some sid" "sid \<noteq> []"
    and "jsmap_get (cache (sessions st)) sid = Val info"
  shows "mcpDeleteHandler out d req res st =
     (if throws d
      then settle (with_cache st (promote (cache (sessions st)) sid (Val info)))
             (internal_error ''Error processing session termination'' (snd (handleRequest d res)))
             (snd (handleRequest d res))
      else (None, with_cache st (promote (cache (sessions st)) sid (Val info)),
            snd (handleRequest d res)))"
  using assms
  by (simp add: mcpDeleteHandler_def truthy_def string_of_def sessions_get_Val handleRequest_def)

lemma internal_error_cases:
  "internal_error message res = Inr (if headersSent res then res else failed message res)"
  by (simp add: internal_error_def json_def failed_def)

lemma handler_rejections:
  assumes "\<not> headersSent res"
  shows "(req_session_id req = Some sid \<and> sid \<noteq> [] \<and> \<not> LRUCache_has (sessions st) sid \<longrightarrow>
            mcpGetHandler out d req res st = (None, st, rejected 404 ''Session not found'' res)
          \<and> mcpDeleteHandler out d req res st = (None, st, rejected 404 ''Session not found'' res))
       \<and> (\<not> truthy (req_session_id req) \<longrightarrow>
            mcpGetHandler out d req res st = (None, st, rejected 400 ''Missing session ID'' res)
          \<and> mcpDeleteHandler out d req res st = (None, st, rejected 400 ''Missing session ID'' res))"
  using assms
  by (auto simp: mcpGetHandler_def mcpDeleteHandler_def truthy_def string_of_def sessions_get_absent
      settle_def invalid_request_def json_def rejected_def)



lemma get_never_creates:
  assumes "mcpGetHandler out d req res st = (r, st', res')"
  shows "engines st' = engines st \<and> sessionId st' = sessionId st \<and> uuids st' = uuids st
       \<and> close_calls st' = close_calls st
       \<and> (\<forall>k. LRUCache_has (sessions st') k = LRUCache_has (sessions st) k)"
proof (cases "truthy (req_session_id req)")
  case False
  with assms show ?thesis
    by (auto simp: mcpGetHandler_def settle_def split: sum.splits)
next
  case True
  then obtain sid where sid: "req_session_id req = Some sid" "sid \<noteq> []"
    by (auto simp: truthy_def split: option.splits)
  show ?thesis
  proof (cases "jsmap_get (cache (sessions st)) sid")
    case Undefined
    with assms sid show ?thesis
      by (auto simp: mcpGetHandler_def settle_def truthy_def string_of_def sessions_get_Undefined
          split: sum.splits)
  next
    case (Val info)
    then have "jsmap_has (cache (sessions st)) sid" using jsmap_get_present[of "cache (sessions st)" sid] by simp
    then show ?thesis
      using assms get_reuse[OF sid Val, of out d res]
      by (auto simp: with_cache_simps LRUCache_has_def jsmap_has_promote)
  qed
qed

lemma delete_never_creates:
  assumes "mcpDeleteHandler out d req res st = (r, st', res')"
  shows "engines st' = engines st \<and> sessionId st' = sessionId st \<and> uuids st' = uuids st
       \<and> close_calls st' = close_calls st \<and> clock_reads st' = clock_reads st
       \<and> (\<forall>k. LRUCache_has (sessions st') k = LRUCache_has (sessions st) k)"
proof (cases "truthy (req_session_id req)")
  case False
  with assms show ?thesis
    by (auto simp: mcpDeleteHandler_def settle_def split: sum.splits)
next
  case True
  then obtain sid where sid: "req_session_id req = Some sid" "sid \<noteq> []"
    by (auto simp: truthy_def split: option.splits)
  show ?thesis
  proof (cases "jsmap_get (cache (sessions st)) sid")
    case Undefined
    with assms sid show ?thesis
      by (auto simp: mcpDeleteHandler_def settle_def truthy_def string_of_def sessions_get_Undefined
          split: sum.splits)
  next
    case (Val info)
    then have "jsmap_has (cache (sessions st)) sid" using jsmap_get_present[of "cache (sessions st)" sid] by simp
    then show ?thesis
      using assms delete_reuse[OF sid Val, of out d res]
      by (auto simp: with_cache_simps LRUCache_has_def jsmap_has_promote settle_def
          split: if_splits sum.splits)
  qed
qed

subsection \<open>The invariant\<close>

lemma case_js_ex: "(case v of Undefined \<Rightarrow> False | Val info \<Rightarrow> P info) \<longleftrightarrow> (\<exists>info. v = Val info \<and> P info)"
  by (cases v) auto

lemma consistent_iff:
  "consistent st \<longleftrightarrow>
     distinct (map fst (jsmap_entries (cache (sessions st))))
     \<and> (\<forall>(k, v) \<in> set (jsmap_entries (cache (sessions st))).
           k \<noteq> [] \<and> (\<exists>info. v = Val info \<and> map_of (sessionId st) (transport info) = Some k))"
  unfolding consistent_def LRUCache_entries_def list_all_iff case_js_ex ..

lemma consistent_entry:
  "consistent st \<Longrightarrow> (k, v) \<in> set (jsmap_entries (cache (sessions st)))
     \<Longrightarrow> k \<noteq> [] \<and> (\<exists>info. v = Val info \<and> map_of (sessionId st) (transport info) = Some k)"
  by (auto simp: consistent_iff)

lemma consistent_fields:
  "consistent (st\<lparr>clock_reads := n\<rparr>) = consistent st"
  "consistent (st\<lparr>close_calls := cs\<rparr>) = consistent st"
  "consistent (st\<lparr>engines := n\<rparr>) = consistent st"
  "consistent (st\<lparr>uuids := n\<rparr>) = consistent st"
  by (simp_all add: consistent_iff)

lemma consistent_subset:
  assumes "consistent st"
    and "distinct (map fst (jsmap_entries m))"
    and "set (jsmap_entries m) \<subseteq> set (jsmap_entries (cache (sessions st)))"
  shows "consistent (with_cache st m)"
  using assms unfolding consistent_iff with_cache_simps by blast

lemma with_cache_same: "with_cache st (cache (sessions st)) = st"
  by (simp add: with_cache_def)

lemma consistent_delete:
  assumes "consistent st"
  shows "consistent (with_cache st (jsmap_delete (cache (sessions st)) k))"
proof -
  have d: "distinct (map fst (jsmap_entries (cache (sessions st))))"
    using assms by (simp add: consistent_iff)
  show ?thesis
    using d by (intro consistent_subset[OF assms]) (auto simp: jsmap_delete_entries distinct_map_filter)
qed

lemma sessions_delete_with_cache:
  "sessions_delete k st = with_cache st (jsmap_delete (cache (sessions st)) k)"
  by (simp add: sessions_delete_def LRUCache_delete_def with_cache_def)

lemma consistent_promote:
  assumes c: "consistent st" and k: "k \<noteq> []"
    and b: "map_of (sessionId st) (transport info) = Some k"
  shows "consistent (with_cache st (promote (cache (sessions st)) k (Val info)))"
proof -
  have d: "distinct (map fst (jsmap_entries (cache (sessions st))))"
    using c by (simp add: consistent_iff)
  show ?thesis
    unfolding consistent_iff with_cache_simps jsmap_entries_promote[OF d]
    using c k b distinct_filter_keys[OF d, of k "Val info"]
    by (auto simp: consistent_iff)
qed

lemma jsmap_get_entry_Val:
  "jsmap_get m k = Val x \<Longrightarrow> (k, Val x) \<in> set (jsmap_entries m)"
  by (induction m k rule: jsmap_get.induct) (auto split: if_splits)

lemma consistent_get:
  assumes "consistent st"
  shows "consistent (snd (sessions_get k st))"
proof (cases "jsmap_get (cache (sessions st)) k")
  case Undefined
  then show ?thesis using assms by (simp add: sessions_get_Undefined)
next
  case (Val info)
  from consistent_entry[OF assms jsmap_get_entry_Val[OF Val]]
  have "k \<noteq> []" "map_of (sessionId st) (transport info) = Some k" by auto
  from consistent_promote[OF assms this] show ?thesis
    by (simp add: sessions_get_Val[OF Val])
qed

lemma onclose_with_cache:
  "\<exists>m. onclose e st = with_cache st m
      \<and> (m = cache (sessions st) \<or> (\<exists>k. m = jsmap_delete (cache (sessions st)) k))"
proof (cases "onclose e st = st")
  case True
  then show ?thesis by (intro exI[of _ "cache (sessions st)"]) (simp add: with_cache_same)
next
  case False
  then have "onclose e st = sessions_delete (string_of (map_of (sessionId st) e)) st"
    by (auto simp: onclose_def Let_def split: if_splits)
  then show ?thesis
    by (intro exI[of _ "jsmap_delete (cache (sessions st)) (string_of (map_of (sessionId st) e))"])
      (auto simp: sessions_delete_with_cache)
qed

lemma consistent_onclose: "consistent st \<Longrightarrow> consistent (onclose e st)"
  using onclose_with_cache[of e st] consistent_delete[of st] by (auto simp: with_cache_same)

lemma transport_close_state:
  "\<exists>m. snd (transport_close out e st) = (with_cache st m)\<lparr>close_calls := close_calls st @ [e]\<rparr>
      \<and> (m = cache (sessions st) \<or> (\<exists>k. m = jsmap_delete (cache (sessions st)) k))"
proof (cases "signals_close out e")
  case False
  then show ?thesis
    by (intro exI[of _ "cache (sessions st)"]) (simp add: transport_close_def with_cache_same)
next
  case True
  from onclose_with_cache[of e "st\<lparr>close_calls := close_calls st @ [e]\<rparr>"]
  obtain m where m: "onclose e (st\<lparr>close_calls := close_calls st @ [e]\<rparr>)
        = with_cache (st\<lparr>close_calls := close_calls st @ [e]\<rparr>) m"
      "m = cache (sessions st) \<or> (\<exists>k. m = jsmap_delete (cache (sessions st)) k)"
    by auto
  show ?thesis
    using True m by (intro exI[of _ m]) (simp add: transport_close_def with_cache_simps)
qed

lemma consistent_transport_close:
  "consistent st \<Longrightarrow> consistent (snd (transport_close out e st))"
  using transport_close_state[of out e st] consistent_delete[of st]
  by (auto simp: consistent_fields with_cache_same)

lemma onEvict_eq: "onEvict out k info st = snd (transport_close out (transport info) st)"
  by (auto simp: onEvict_def split: prod.splits close_result.splits)

lemma cleanupSession_eq:
  "cleanupSession out k st =
     (case jsmap_get (cache (sessions st)) k of
        Undefined \<Rightarrow> st
      | Val info \<Rightarrow>
          sessions_delete k (snd (transport_close out (transport info)
             (with_cache st (promote (cache (sessions st)) k (Val info))))))"
  by (auto simp: cleanupSession_def sessions_get_Val sessions_get_Undefined
      split: js.splits prod.splits close_result.splits)

lemma consistent_cleanupSession:
  assumes "consistent st"
  shows "consistent (cleanupSession out k st)"
proof (cases "jsmap_get (cache (sessions st)) k")
  case Undefined
  then show ?thesis using assms by (simp add: cleanupSession_eq)
next
  case (Val info)
  from consistent_entry[OF assms jsmap_get_entry_Val[OF Val]]
  have "k \<noteq> []" "map_of (sessionId st) (transport info) = Some k" by auto
  from consistent_promote[OF assms this]
  have "consistent (snd (transport_close out (transport info)
             (with_cache st (promote (cache (sessions st)) k (Val info)))))"
    by (rule consistent_transport_close)
  from consistent_delete[OF this, of k] show ?thesis
    by (simp add: cleanupSession_eq Val sessions_delete_with_cache)
qed

lemma transport_close_sessionId [simp]:
  "sessionId (snd (transport_close out e st)) = sessionId st"
  using transport_close_state[of out e st] by (auto simp: with_cache_simps)

lemma transport_close_has:
  "jsmap_has (cache (sessions (snd (transport_close out e st)))) k \<Longrightarrow> jsmap_has (cache (sessions st)) k"
  using transport_close_state[of out e st] by (auto simp: with_cache_simps dest: jsmap_has_delete_imp)

lemma LRUCache_evict_cases:
  assumes "distinct (map fst (jsmap_entries (cache c)))"
  shows "(\<exists>e. LRUCache_evict c key = Inl e)
       \<or> (\<exists>m1 removed. LRUCache_evict c key = Inr (c\<lparr>cache := m1\<rparr>, removed)
             \<and> (m1 = cache c \<or> (\<exists>k. m1 = jsmap_delete (cache c) k))
             \<and> \<not> jsmap_has m1 key)"
proof (cases "jsmap_has (cache c) key")
  case True
  then show ?thesis
    using assms by (auto simp: LRUCache_evict_present jsmap_has_delete)
next
  case False
  have same: "c = c\<lparr>cache := cache c\<rparr>" by simp
  show ?thesis
  proof (cases "maxSize c \<le> real (jsmap_size (cache c))")
    case full: True
    show ?thesis
    proof (cases "jsmap_first_key (cache c)")
      case None
      with False full show ?thesis by (simp add: LRUCache_evict_def)
    next
      case (Some k0)
      have "\<not> jsmap_has (jsmap_delete (cache c) k0) key"
        using False jsmap_has_delete_imp by blast
      with False full Some show ?thesis
        by (intro disjI2 exI[of _ "jsmap_delete (cache c) k0"]) (auto simp: LRUCache_evict_def Let_def)
    qed
  next
    case notfull: False
    with False same show ?thesis
      by (intro disjI2 exI[of _ "cache c"] exI[of _ None]) (simp add: LRUCache_evict_def)
  qed
qed

lemma consistent_append:
  assumes c: "consistent st" and absent: "\<not> jsmap_has (cache (sessions st)) key"
    and k: "key \<noteq> []" and b: "map_of (sessionId st) (transport info) = Some key"
  shows "consistent (with_cache st (jsmap_set (cache (sessions st)) key (Val info)))"
  using assms unfolding consistent_iff with_cache_simps
  by (auto simp: jsmap_set_entries_absent jsmap_has_entries)

lemma consistent_sessions_set:
  assumes c: "consistent st" and k: "key \<noteq> []"
    and b: "map_of (sessionId st) (transport info) = Some key"
  shows "consistent (snd (sessions_set out key info st))"
proof -
  have d: "distinct (map fst (jsmap_entries (cache (sessions st))))"
    using c by (simp add: consistent_iff)
  from LRUCache_evict_cases[OF d, of key] show ?thesis
  proof
    assume "\<exists>e. LRUCache_evict (sessions st) key = Inl e"
    then show ?thesis using c by (auto simp: sessions_set_def)
  next
    assume "\<exists>m1 removed. LRUCache_evict (sessions st) key = Inr ((sessions st)\<lparr>cache := m1\<rparr>, removed)
             \<and> (m1 = cache (sessions st) \<or> (\<exists>k. m1 = jsmap_delete (cache (sessions st)) k))
             \<and> \<not> jsmap_has m1 key"
    then obtain m1 removed where ev: "LRUCache_evict (sessions st) key = Inr ((sessions st)\<lparr>cache := m1\<rparr>, removed)"
      and m1: "m1 = cache (sessions st) \<or> (\<exists>k. m1 = jsmap_delete (cache (sessions st)) k)"
      and absent: "\<not> jsmap_has m1 key"
      by blast
    let ?st1 = "with_cache st m1"
    have c1: "consistent ?st1"
      using m1 consistent_delete[OF c] c by (auto simp: with_cache_same)
    define st2 where "st2 = (case removed of
                        Some (oldestKey, Val oldestValue) \<Rightarrow> onEvict out oldestKey oldestValue ?st1
                      | Some (oldestKey, Undefined) \<Rightarrow> ?st1
                      | None \<Rightarrow> ?st1)"
    have st2: "st2 = ?st1 \<or> (\<exists>e. st2 = snd (transport_close out e ?st1))"
      by (auto simp: st2_def onEvict_eq split: option.splits js.splits)
    have c2: "consistent st2"
      using st2 c1 consistent_transport_close by auto
    have id2: "sessionId st2 = sessionId st"
      using st2 by (auto simp: with_cache_simps)
    have a2: "\<not> jsmap_has (cache (sessions st2)) key"
      using st2 absent transport_close_has[of out _ ?st1 key] by (auto simp: with_cache_simps)
    have "snd (sessions_set out key info st) = with_cache st2 (jsmap_set (cache (sessions st2)) key (Val info))"
    proof (cases removed)
      case None
      then show ?thesis
        by (simp add: sessions_set_def ev st2_def with_cache_def LRUCache_insert_def)
    next
      case (Some kv)
      obtain k0 v0 where kv: "kv = (k0, v0)" by (cases kv)
      show ?thesis
        by (cases v0) (simp_all add: sessions_set_def ev st2_def Some kv with_cache_def LRUCache_insert_def Let_def)
    qed
    then show ?thesis
      using consistent_append[OF c2 a2 k] b id2 by simp
  qed
qed

lemma randomUUID_nonempty: "randomUUID bits \<noteq> []"
  by (simp add: randomUUID_def)

lemma consistent_session_initialized:
  assumes c: "consistent st" and unused: "map_of (sessionId st) e = None"
  shows "consistent (snd (session_initialized out e st))"
proof -
  let ?sid = "randomUUID (random out (uuids st))"
  let ?st1 = "st\<lparr>uuids := Suc (uuids st), sessionId := (e, ?sid) # sessionId st\<rparr>"
  have "consistent ?st1"
    unfolding consistent_iff
  proof (intro conjI ballI)
    show "distinct (map fst (jsmap_entries (cache (sessions ?st1))))"
      using c by (simp add: consistent_iff)
  next
    fix x assume x: "x \<in> set (jsmap_entries (cache (sessions ?st1)))"
    obtain k v where kv: "x = (k, v)" by (cases x)
    from x kv consistent_entry[OF c, of k v]
    obtain info where i: "k \<noteq> []" "v = Val info" "map_of (sessionId st) (transport info) = Some k"
      by auto
    with unused have "transport info \<noteq> e" by auto
    with i kv show "case x of (k, v) \<Rightarrow> k \<noteq> [] \<and>
        (\<exists>info. v = Val info \<and> map_of (sessionId ?st1) (transport info) = Some k)"
      by simp
  qed
  then have c2: "consistent (?st1\<lparr>clock_reads := Suc (clock_reads ?st1)\<rparr>)"
    by (simp add: consistent_fields)
  from consistent_sessions_set[OF c2 randomUUID_nonempty, of "\<lparr>transport = e, lastActivity = now out (clock_reads ?st1)\<rparr>"
      "random out (uuids st)" out]
  show ?thesis
    by (simp add: session_initialized_def Let_def)
qed

lemma consistent_touchSession:
  assumes c: "consistent st"
  shows "consistent (snd (touchSession out k st))"
proof (cases "jsmap_get (cache (sessions st)) k")
  case Undefined
  then show ?thesis using c by (simp add: touchSession_def sessions_get_Undefined)
next
  case (Val info)
  from consistent_entry[OF c jsmap_get_entry_Val[OF Val]]
  have k: "k \<noteq> []" and b: "map_of (sessionId st) (transport info) = Some k" by auto
  let ?st1 = "with_cache st (promote (cache (sessions st)) k (Val info))"
  have c1: "consistent ?st1" by (rule consistent_promote[OF c k b])
  from consistent_promote[OF c1 k, of "info\<lparr>lastActivity := now out (clock_reads st)\<rparr>"] b
  show ?thesis
    by (simp add: touchSession_Val[OF Val] with_cache_simps consistent_fields)
qed

lemma post_state: "fst (snd (mcpPostHandler out d req res st)) = fst (snd (post_try out d req res st))"
  by (auto simp: mcpPostHandler_def settle_def split: prod.splits option.splits sum.splits)

lemma consistent_post_try:
  assumes c: "consistent st"
  shows "consistent (fst (snd (post_try out d req res st)))"
proof (cases "truthy (req_session_id req)")
  case False
  with c show ?thesis
    by (auto simp: post_try_def settle_def consistent_fields Let_def handleRequest_def
        split: sum.splits bool.splits)
next
  case True
  then obtain sid where sid: "req_session_id req = Some sid" "sid \<noteq> []"
    by (auto simp: truthy_def split: option.splits)
  show ?thesis
  proof (cases "jsmap_get (cache (sessions st)) sid")
    case Undefined
    with c sid True show ?thesis
      by (auto simp: post_try_def settle_def string_of_def sessions_get_Undefined split: sum.splits)
  next
    case (Val info)
    have "fst (snd (post_try out d req res st))
        = snd (touchSession out sid (snd (sessions_get sid st)))"
      using sid True Val
      by (auto simp: post_try_def string_of_def sessions_get_Val split: prod.splits option.splits bool.splits)
    then show ?thesis
      using consistent_touchSession[OF consistent_get[OF c]] by simp
  qed
qed

lemma consistent_get_handler:
  assumes c: "consistent st"
  shows "consistent (fst (snd (mcpGetHandler out d req res st)))"
proof (cases "truthy (req_session_id req)")
  case False
  with c show ?thesis
    by (auto simp: mcpGetHandler_def settle_def split: sum.splits)
next
  case True
  then obtain sid where sid: "req_session_id req = Some sid" "sid \<noteq> []"
    by (auto simp: truthy_def split: option.splits)
  show ?thesis
  proof (cases "jsmap_get (cache (sessions st)) sid")
    case Undefined
    with c sid True show ?thesis
      by (auto simp: mcpGetHandler_def settle_def string_of_def sessions_get_Undefined split: sum.splits)
  next
    case (Val info)
    have "fst (snd (mcpGetHandler out d req res st))
        = snd (touchSession out sid (snd (sessions_get sid st)))"
      using sid True Val
      by (auto simp: mcpGetHandler_def string_of_def sessions_get_Val split: prod.splits option.splits bool.splits)
    then show ?thesis
      using consistent_touchSession[OF consistent_get[OF c]] by simp
  qed
qed

lemma consistent_delete_handler:
  assumes c: "consistent st"
  shows "consistent (fst (snd (mcpDeleteHandler out d req res st)))"
proof (cases "truthy (req_session_id req)")
  case False
  with c show ?thesis
    by (auto simp: mcpDeleteHandler_def settle_def split: sum.splits)
next
  case True
  then obtain sid where sid: "req_session_id req = Some sid" "sid \<noteq> []"
    by (auto simp: truthy_def split: option.splits)
  show ?thesis
  proof (cases "jsmap_get (cache (sessions st)) sid")
    case Undefined
    with c sid True show ?thesis
      by (auto simp: mcpDeleteHandler_def settle_def string_of_def sessions_get_Undefined split: sum.splits)
  next
    case (Val info)
    have "fst (snd (mcpDeleteHandler out d req res st)) = snd (sessions_get sid st)"
      using delete_reuse[OF sid Val, of out d res]
      by (auto simp: sessions_get_Val[OF Val] settle_def split: sum.splits)
    then show ?thesis
      using consistent_get[OF c] by simp
  qed
qed

subsection \<open>The sweep\<close>

lemma cleanupSession_slot:
  assumes c: "consistent st" and i: "i < length (cache (sessions st))"
    and slot: "cache (sessions st) ! i = Some (k, Val info)"
  shows "cleanupSession out k st =
     (with_cache st ((cache (sessions st))[i := None] @ [None]))
       \<lparr>close_calls := close_calls st @ [transport info]\<rparr>"
proof -
  let ?m = "cache (sessions st)"
  let ?emptied = "?m[i := None]"
  let ?e = "transport info"
  have d: "distinct (map fst (jsmap_entries ?m))" using c by (simp add: consistent_iff)
  have get: "jsmap_get ?m k = Val info" by (rule jsmap_get_slot[OF i slot d])
  have del: "jsmap_delete ?m k = ?emptied" by (rule jsmap_delete_slot[OF i slot d])
  have absent: "\<not> jsmap_has ?emptied k" using jsmap_has_delete[OF d, of k k] del by simp
  have pro: "promote ?m k (Val info) = ?emptied @ [Some (k, Val info)]"
    by (simp add: promote_def del jsmap_set_absent[OF absent])
  have entry: "(k, Val info) \<in> set (jsmap_entries ?m)"
    using i slot by (auto simp: set_jsmap_entries in_set_conv_nth)
  from consistent_entry[OF c entry]
  have k: "k \<noteq> []" and b: "map_of (sessionId st) ?e = Some k" by auto
  have del2: "jsmap_delete (?emptied @ [Some (k, Val info)]) k = ?emptied @ [None]"
    by (simp add: jsmap_delete_append_absent[OF absent])
  have absent2: "\<not> jsmap_has (?emptied @ [None]) k"
    using absent by (simp add: jsmap_has_append)
  let ?stA = "with_cache st (?emptied @ [Some (k, Val info)])"
  have close: "snd (transport_close out ?e ?stA) =
      (with_cache st (if signals_close out ?e then ?emptied @ [None] else ?emptied @ [Some (k, Val info)]))
        \<lparr>close_calls := close_calls st @ [?e]\<rparr>"
    using k b del2
    by (simp add: transport_close_def onclose_def with_cache_simps truthy_def string_of_def
        LRUCache_has_def jsmap_has_append sessions_delete_with_cache Let_def)
  have "cleanupSession out k st = sessions_delete k (snd (transport_close out ?e ?stA))"
    by (simp add: cleanupSession_eq get pro)
  also have "\<dots> = (with_cache st (?emptied @ [None]))\<lparr>close_calls := close_calls st @ [?e]\<rparr>"
    using del2 jsmap_delete_absent[OF absent2]
    by (simp add: close sessions_delete_with_cache with_cache_simps)
  finally show ?thesis .
qed

lemma swept_done: "consistent st \<Longrightarrow> length (cache (sessions st)) \<le> i \<Longrightarrow> swept t i st st"
  by (simp add: swept_def)

lemma swept_skip:
  assumes "swept t (Suc i) st st'"
    and "\<And>k info. cache (sessions st) ! i = Some (k, Val info) \<Longrightarrow>
            \<not> t - lastActivity info > SESSION_IDLE_TIMEOUT_MS"
  shows "swept t i st st'"
  unfolding swept_def
proof (intro conjI allI impI)
  fix j k info
  assume a: "i \<le> j \<and> j < length (cache (sessions st))
            \<and> cache (sessions st) ! j = Some (k, Val info)
            \<and> t - lastActivity info > SESSION_IDLE_TIMEOUT_MS"
  with assms(2) have "j \<noteq> i" by auto
  with a have "Suc i \<le> j" by simp
  with a assms(1) show "\<not> jsmap_has (cache (sessions st')) k"
    "transport info \<in> set (drop (length (close_calls st)) (close_calls st'))"
    unfolding swept_def by blast+
qed (use assms(1) in \<open>auto simp: swept_def\<close>)

lemma swept_cleanup:
  assumes c: "consistent st" and i: "i < length (cache (sessions st))"
    and slot: "cache (sessions st) ! i = Some (sid, Val session)"
    and rest: "swept t (Suc i) (cleanupSession out sid st) st'"
  shows "swept t i st st'"
proof -
  let ?m = "cache (sessions st)"
  let ?stA = "cleanupSession out sid st"
  have st1: "?stA = (with_cache st (?m[i := None] @ [None]))
       \<lparr>close_calls := close_calls st @ [transport session]\<rparr>"
    by (rule cleanupSession_slot[OF c i slot])
  have d: "distinct (map fst (jsmap_entries ?m))" using c by (simp add: consistent_iff)
  have m1: "cache (sessions ?stA) = ?m[i := None] @ [None]"
    by (simp add: st1 with_cache_simps)
  have gone: "\<not> jsmap_has (cache (sessions ?stA)) sid"
    using jsmap_has_delete[OF d, of sid sid] jsmap_delete_slot[OF i slot d]
    by (simp add: m1 jsmap_has_append)
  have sub: "jsmap_has (cache (sessions ?stA)) k \<Longrightarrow> jsmap_has ?m k" for k
    using jsmap_has_delete_imp[of ?m sid k] jsmap_delete_slot[OF i slot d]
    by (simp add: m1 jsmap_has_append)
  from rest obtain cs where cs: "close_calls st' = close_calls ?stA @ cs"
    unfolding swept_def by blast
  have calls: "close_calls st' = close_calls st @ transport session # cs"
    using cs by (simp add: st1 with_cache_simps)
  show ?thesis
    unfolding swept_def
  proof (intro conjI allI impI)
    show "\<exists>cs. close_calls st' = close_calls st @ cs" using calls by blast
  next
    fix k assume "jsmap_has (cache (sessions st')) k"
    with rest have "jsmap_has (cache (sessions ?stA)) k" unfolding swept_def by blast
    then show "jsmap_has ?m k" by (rule sub)
  next
    fix j k info
    assume a: "i \<le> j \<and> j < length ?m \<and> ?m ! j = Some (k, Val info)
            \<and> t - lastActivity info > SESSION_IDLE_TIMEOUT_MS"
    show "\<not> jsmap_has (cache (sessions st')) k"
    proof (cases "j = i")
      case True
      with a slot have "k = sid" by simp
      with gone rest show ?thesis unfolding swept_def by blast
    next
      case False
      with a have "Suc i \<le> j" "j < length (cache (sessions ?stA))"
        "cache (sessions ?stA) ! j = Some (k, Val info)"
        by (simp_all add: m1 nth_append)
      with a rest show ?thesis unfolding swept_def by blast
    qed
    show "transport info \<in> set (drop (length (close_calls st)) (close_calls st'))"
    proof (cases "j = i")
      case True
      with a slot have "info = session" by simp
      then show ?thesis by (simp add: calls)
    next
      case False
      with a have "Suc i \<le> j" "j < length (cache (sessions ?stA))"
        "cache (sessions ?stA) ! j = Some (k, Val info)"
        by (simp_all add: m1 nth_append)
      with a rest have "transport info \<in> set (drop (length (close_calls ?stA)) (close_calls st'))"
        unfolding swept_def by blast
      then show ?thesis by (simp add: calls st1 with_cache_simps)
    qed
  qed (use rest in \<open>auto simp: swept_def st1 with_cache_simps\<close>)
qed

lemma sweep_swept:
  "consistent st \<Longrightarrow> \<exists>st'. sweep out t i st = Inr st' \<and> swept t i st st'"
proof (induction out t i st rule: sweep.induct)
  case (1 out t i st)
  let ?m = "cache (sessions st)"
  show ?case
  proof (cases "i < length ?m")
    case False
    then show ?thesis using swept_done[OF "1.prems", of i t] by (subst sweep.simps) simp
  next
    case i: True
    show ?thesis
    proof (cases "?m ! i")
      case None
      from "1.IH"(1)[OF i None "1.prems"]
      obtain st' where st': "sweep out t (Suc i) st = Inr st'" "swept t (Suc i) st st'" by blast
      have "swept t i st st'" by (rule swept_skip[OF st'(2)]) (simp add: None)
      with st'(1) i None show ?thesis by (subst sweep.simps) simp
    next
      case (Some slot)
      obtain sid v where slot: "slot = (sid, v)" by (cases slot)
      have "(sid, v) \<in> set (jsmap_entries ?m)"
        using i Some slot by (auto simp: set_jsmap_entries in_set_conv_nth)
      from consistent_entry[OF "1.prems" this]
      obtain session where v: "v = Val session" by blast
      show ?thesis
      proof (cases "t - lastActivity session > SESSION_IDLE_TIMEOUT_MS")
        case True
        have c1: "consistent (cleanupSession out sid st)"
          by (rule consistent_cleanupSession[OF "1.prems"])
        from "1.IH"(2)[OF i Some slot[symmetric] v True c1]
        obtain st' where st': "sweep out t (Suc i) (cleanupSession out sid st) = Inr st'"
          "swept t (Suc i) (cleanupSession out sid st) st'" by blast
        have "swept t i st st'"
          using swept_cleanup[OF "1.prems" i _ st'(2)] Some slot v by simp
        with st'(1) i Some slot v True show ?thesis by (subst sweep.simps) simp
      next
        case False
        from "1.IH"(3)[OF i Some slot[symmetric] v False "1.prems"]
        obtain st' where st': "sweep out t (Suc i) st = Inr st'" "swept t (Suc i) st st'" by blast
        have "swept t i st st'" by (rule swept_skip[OF st'(2)]) (use Some slot v False in simp)
        with st'(1) i Some slot v False show ?thesis by (subst sweep.simps) simp
      qed
    qed
  qed
qed

subsection \<open>Reachable states\<close>

lemma consistent_start: "consistent startHttpServer"
  by (simp add: consistent_def startHttpServer_def LRUCache_new_def LRUCache_entries_def)

lemma cleanupInterval_swept:
  assumes "consistent st"
  shows "\<exists>st'. cleanupInterval out st = Inr st'
           \<and> swept (now out (clock_reads st)) 0 (st\<lparr>clock_reads := Suc (clock_reads st)\<rparr>) st'"
  using sweep_swept[of "st\<lparr>clock_reads := Suc (clock_reads st)\<rparr>" out "now out (clock_reads st)" 0] assms
  by (simp add: cleanupInterval_def consistent_fields)

lemma step_consistent:
  assumes "step out st ids st'" and "consistent st"
  shows "consistent st'"
  using assms
proof (cases rule: step.cases)
  case (post d req res r res')
  then have "st' = fst (snd (post_try out d req res st))" using post_state[of out d req res st] by simp
  then show ?thesis using consistent_post_try[OF assms(2)] by simp
next
  case (get d req res r res')
  then have "st' = fst (snd (mcpGetHandler out d req res st))" by simp
  then show ?thesis using consistent_get_handler[OF assms(2)] by simp
next
  case (delete d req res r res')
  then have "st' = fst (snd (mcpDeleteHandler out d req res st))" by simp
  then show ?thesis using consistent_delete_handler[OF assms(2)] by simp
next
  case (initialized e r)
  then have "st' = snd (session_initialized out e st)" by simp
  then show ?thesis using consistent_session_initialized[OF assms(2) initialized(3)] by simp
next
  case (closed e)
  then show ?thesis using consistent_onclose[OF assms(2)] by simp
next
  case tick
  with cleanupInterval_swept[OF assms(2), of out] show ?thesis by (auto simp: swept_def)
qed

lemma steps_consistent: "steps out st ids st' \<Longrightarrow> consistent st \<Longrightarrow> consistent st'"
  by (induction rule: steps.induct) (auto intro: step_consistent)

lemma reachable_consistent: "reachable out st \<Longrightarrow> consistent st"
  unfolding reachable_def using steps_consistent consistent_start by blast

subsection \<open>A key that is absent stays absent until it is issued again\<close>

lemma post_keys:
  "jsmap_has (cache (sessions (fst (snd (post_try out d req res st))))) k
     = jsmap_has (cache (sessions st)) k"
proof (cases "truthy (req_session_id req)")
  case False
  then show ?thesis
    by (auto simp: post_try_def settle_def Let_def handleRequest_def split: sum.splits bool.splits)
next
  case True
  then obtain sid where sid: "req_session_id req = Some sid" "sid \<noteq> []"
    by (auto simp: truthy_def split: option.splits)
  show ?thesis
  proof (cases "jsmap_get (cache (sessions st)) sid")
    case Undefined
    with sid True show ?thesis
      by (auto simp: post_try_def settle_def string_of_def sessions_get_Undefined split: sum.splits)
  next
    case (Val info)
    then have "jsmap_has (cache (sessions st)) sid"
      using jsmap_get_present[of "cache (sessions st)" sid] by simp
    then show ?thesis
      by (simp add: post_try_reuse[OF sid Val] with_cache_simps jsmap_has_promote)
  qed
qed

lemma sessions_set_keys:
  assumes c: "consistent st"
    and has: "jsmap_has (cache (sessions (snd (sessions_set out key info st)))) k"
  shows "k = key \<or> jsmap_has (cache (sessions st)) k"
proof -
  have d: "distinct (map fst (jsmap_entries (cache (sessions st))))"
    using c by (simp add: consistent_iff)
  from LRUCache_evict_cases[OF d, of key] show ?thesis
  proof
    assume "\<exists>e. LRUCache_evict (sessions st) key = Inl e"
    then show ?thesis using has by (auto simp: sessions_set_def)
  next
    assume "\<exists>m1 removed. LRUCache_evict (sessions st) key = Inr ((sessions st)\<lparr>cache := m1\<rparr>, removed)
             \<and> (m1 = cache (sessions st) \<or> (\<exists>k. m1 = jsmap_delete (cache (sessions st)) k))
             \<and> \<not> jsmap_has m1 key"
    then obtain m1 removed where ev: "LRUCache_evict (sessions st) key = Inr ((sessions st)\<lparr>cache := m1\<rparr>, removed)"
      and m1: "m1 = cache (sessions st) \<or> (\<exists>k. m1 = jsmap_delete (cache (sessions st)) k)"
      by blast
    define st2 where "st2 = (case removed of
                        Some (oldestKey, Val oldestValue) \<Rightarrow> onEvict out oldestKey oldestValue (with_cache st m1)
                      | Some (oldestKey, Undefined) \<Rightarrow> with_cache st m1
                      | None \<Rightarrow> with_cache st m1)"
    have st2: "st2 = with_cache st m1 \<or> (\<exists>e. st2 = snd (transport_close out e (with_cache st m1)))"
      by (auto simp: st2_def onEvict_eq split: option.splits js.splits)
    have eq: "snd (sessions_set out key info st) = with_cache st2 (jsmap_set (cache (sessions st2)) key (Val info))"
    proof (cases removed)
      case None
      then show ?thesis
        by (simp add: sessions_set_def ev st2_def with_cache_def LRUCache_insert_def)
    next
      case (Some kv)
      obtain k0 v0 where kv: "kv = (k0, v0)" by (cases kv)
      show ?thesis
        by (cases v0) (simp_all add: sessions_set_def ev st2_def Some kv with_cache_def LRUCache_insert_def Let_def)
    qed
    have "jsmap_has (cache (sessions st2)) k \<Longrightarrow> jsmap_has m1 k"
      using st2 transport_close_has[of out _ "with_cache st m1" k] by (auto simp: with_cache_simps)
    moreover have "jsmap_has m1 k \<Longrightarrow> jsmap_has (cache (sessions st)) k"
      using m1 jsmap_has_delete_imp by blast
    ultimately show ?thesis
      using has by (auto simp: eq with_cache_simps jsmap_has_set)
  qed
qed

lemma session_initialized_keys:
  assumes c: "consistent st" and unused: "map_of (sessionId st) e = None"
    and has: "jsmap_has (cache (sessions (snd (session_initialized out e st)))) k"
  shows "k = randomUUID (random out (uuids st)) \<or> jsmap_has (cache (sessions st)) k"
proof -
  let ?sid = "randomUUID (random out (uuids st))"
  let ?stA = "st\<lparr>uuids := Suc (uuids st), sessionId := (e, ?sid) # sessionId st\<rparr>"
  let ?stB = "?stA\<lparr>clock_reads := Suc (clock_reads ?stA)\<rparr>"
  have "consistent ?stA"
    unfolding consistent_iff
  proof (intro conjI ballI)
    show "distinct (map fst (jsmap_entries (cache (sessions ?stA))))"
      using c by (simp add: consistent_iff)
  next
    fix x assume x: "x \<in> set (jsmap_entries (cache (sessions ?stA)))"
    obtain k v where kv: "x = (k, v)" by (cases x)
    from x kv consistent_entry[OF c, of k v]
    obtain info where i: "k \<noteq> []" "v = Val info" "map_of (sessionId st) (transport info) = Some k"
      by auto
    with unused have "transport info \<noteq> e" by auto
    with i kv show "case x of (k, v) \<Rightarrow> k \<noteq> [] \<and>
        (\<exists>info. v = Val info \<and> map_of (sessionId ?stA) (transport info) = Some k)"
      by simp
  qed
  then have cB: "consistent ?stB" by (simp add: consistent_fields)
  have "snd (session_initialized out e st)
      = snd (sessions_set out ?sid \<lparr>transport = e, lastActivity = now out (clock_reads ?stA)\<rparr> ?stB)"
    by (simp add: session_initialized_def Let_def)
  with has sessions_set_keys[OF cB, of out ?sid _ k] show ?thesis by auto
qed

lemma onclose_keys:
  "jsmap_has (cache (sessions (onclose e st))) k \<Longrightarrow> jsmap_has (cache (sessions st)) k"
  using onclose_with_cache[of e st] by (auto simp: with_cache_simps dest: jsmap_has_delete_imp)

lemma step_keys:
  assumes "step out st ids st'" and c: "consistent st"
    and has: "jsmap_has (cache (sessions st')) k"
  shows "k \<in> set ids \<or> jsmap_has (cache (sessions st)) k"
  using assms(1)
proof (cases rule: step.cases)
  case (post d req res r res')
  then have "st' = fst (snd (post_try out d req res st))" using post_state[of out d req res st] by simp
  with has post_keys[of out d req res st k] show ?thesis by simp
next
  case (get d req res r res')
  with has get_never_creates[of out d req res st r st' res'] show ?thesis
    by (simp add: LRUCache_has_def)
next
  case (delete d req res r res')
  with has delete_never_creates[of out d req res st r st' res'] show ?thesis
    by (simp add: LRUCache_has_def)
next
  case (initialized e r)
  then have "st' = snd (session_initialized out e st)" by simp
  with has session_initialized_keys[OF c initialized(3), of out k] initialized(1) show ?thesis by auto
next
  case (closed e)
  with has onclose_keys show ?thesis by auto
next
  case tick
  with cleanupInterval_swept[OF c, of out] has show ?thesis by (auto simp: swept_def)
qed

lemma steps_keys:
  "steps out st ids st' \<Longrightarrow> consistent st \<Longrightarrow> jsmap_has (cache (sessions st')) k
     \<Longrightarrow> k \<in> set ids \<or> jsmap_has (cache (sessions st)) k"
proof (induction rule: steps.induct)
  case (none st)
  then show ?case by simp
next
  case (more st ids st' ids' st'')
  from step_keys[OF more.hyps(2) steps_consistent[OF more.hyps(1) more.prems(1)] more.prems(2)]
  show ?case using more.IH[OF more.prems(1)] by auto
qed

subsection \<open>An example run\<close>

lemma randomUUID_0: "randomUUID 0 = first_id"
  by (simp add: randomUUID_def nibble_def first_id_def)

lemma first_post:
  "mcpPostHandler calm answered (request_to ''POST'' None True) fresh startHttpServer
     = (None, startHttpServer\<lparr>engines := 1\<rparr>, fresh\<lparr>headersSent := True, sent := [Streamed]\<rparr>)"
  by (simp add: mcpPostHandler_def post_try_def truthy_def request_to_def calm_def answered_def
      handleRequest_def fresh_def startHttpServer_def)

lemma first_session:
  "session_initialized calm 0 (startHttpServer\<lparr>engines := 1\<rparr>) = (None, established)"
  by (simp add: session_initialized_def calm_def startHttpServer_def randomUUID_0 sessions_set_def
      LRUCache_evict_def LRUCache_new_def MAX_SESSIONS_def jsmap_size_def LRUCache_insert_def
      established_def Let_def)

lemma established_reachable: "reachable calm established"
proof -
  have "steps calm startHttpServer [] startHttpServer" by (rule steps.none)
  from steps.more[OF this step.post[OF first_post]]
  have "steps calm startHttpServer [] (startHttpServer\<lparr>engines := 1\<rparr>)" by simp
  from steps.more[OF this step.initialized[OF _ _ first_session]]
  show ?thesis by (auto simp: reachable_def startHttpServer_def)
qed

lemma first_id_nonempty: "first_id \<noteq> []"
  by (simp add: first_id_def)

lemma tick_established:
  "cleanupInterval calm established
     = Inr (established\<lparr>sessions := \<lparr>maxSize = 1000, cache = [None, None]\<rparr>,
                        close_calls := [0], clock_reads := 2\<rparr>)"
  by (simp add: cleanupInterval_def established_def calm_def sweep.simps SESSION_IDLE_TIMEOUT_MS_def
      cleanupSession_def sessions_get_def LRUCache_get_def transport_close_def onclose_def
      truthy_def string_of_def LRUCache_has_def sessions_delete_def LRUCache_delete_def
      first_id_nonempty Let_def)

lemma entries_promote_thrice:
  assumes d: "distinct (map fst (jsmap_entries m))"
  shows "jsmap_entries (promote (promote (promote m k v1) k v2) k v3)
       = filter (\<lambda>e. fst e \<noteq> k) (jsmap_entries m) @ [(k, v3)]"
proof -
  have d1: "distinct (map fst (jsmap_entries (promote m k v1)))" by (rule distinct_promote[OF d])
  have d2: "distinct (map fst (jsmap_entries (promote (promote m k v1) k v2)))"
    by (rule distinct_promote[OF d1])
  show ?thesis
    by (simp add: jsmap_entries_promote[OF d2] jsmap_entries_promote[OF d1] jsmap_entries_promote[OF d])
qed

lemma get_established:
  "jsmap_get (cache (sessions established)) first_id = Val \<lparr>transport = 0, lastActivity = 0\<rparr>"
  by (simp add: established_def)

section \<open>The claims about the server\<close>

subsection \<open>Claim C5\<close>

text \<open>
  C5, as amended. A POST request that bears a key that is not empty and not in the cache is
  answered 404 with the envelope \<^verbatim>\<open>Session not found\<close>, whatever its body; a POST request
  that bears no key, or an empty one, and whose body is not an initialize request is
  answered 400. In both cases the handler resolves and the whole server state, the cache
  included, is what it was: no engine is constructed and no session created. (On a
  response whose headers were already sent nothing is written.)
\<close>

theorem post_rejections:
  "(req_session_id req = Some sid \<and> sid \<noteq> [] \<and> \<not> LRUCache_has (sessions st) sid \<longrightarrow>
       mcpPostHandler out d req res st =
         (None, st, if headersSent res then res else rejected 404 ''Session not found'' res))
   \<and> (\<not> truthy (req_session_id req) \<and> \<not> isInitializeRequest out (req_body req) \<longrightarrow>
       mcpPostHandler out d req res st =
         (None, st, if headersSent res then res
                    else rejected 400 ''Bad Request: No valid session ID provided'' res))"
  by (rule post_rejects)

theorem post_rejections_witness:
  "req_session_id (request_to ''POST'' (Some ''gone'') True) = Some ''gone''
   \<and> \<not> LRUCache_has (sessions startHttpServer) ''gone''
   \<and> mcpPostHandler calm answered (request_to ''POST'' (Some ''gone'') True) fresh startHttpServer
       = (None, startHttpServer, rejected 404 ''Session not found'' fresh)
   \<and> \<not> truthy (req_session_id (request_to ''POST'' None False))
   \<and> \<not> isInitializeRequest calm (req_body (request_to ''POST'' None False))
   \<and> mcpPostHandler calm answered (request_to ''POST'' None False) fresh startHttpServer
       = (None, startHttpServer, rejected 400 ''Bad Request: No valid session ID provided'' fresh)"
  using post_rejections[of "request_to ''POST'' (Some ''gone'') True" "''gone''" startHttpServer
      calm answered fresh]
    post_rejections[of "request_to ''POST'' None False" "''gone''" startHttpServer calm answered fresh]
  by (simp add: request_to_def startHttpServer_def LRUCache_new_def LRUCache_has_def truthy_def
      calm_def fresh_def)

text \<open>
  C5 as it was stated fails for the key that is the empty string, which both conditions of
  lines 255 to 259 treat as no key: it is not in the cache, yet a request bearing it is
  answered 400 when its body is not an initialize request, and when its body is one, an
  engine is constructed and the request is dispatched to it.
\<close>

theorem post_empty_key_counterexample:
  "\<not> LRUCache_has (sessions startHttpServer) ''''
   \<and> mcpPostHandler calm answered (request_to ''POST'' (Some '''') False) fresh startHttpServer
       = (None, startHttpServer, rejected 400 ''Bad Request: No valid session ID provided'' fresh)
   \<and> mcpPostHandler calm answered (request_to ''POST'' (Some '''') True) fresh startHttpServer
       = (None, startHttpServer\<lparr>engines := 1\<rparr>, fresh\<lparr>headersSent := True, sent := [Streamed]\<rparr>)"
  by (simp add: mcpPostHandler_def post_try_def truthy_def string_of_def request_to_def
      startHttpServer_def LRUCache_new_def LRUCache_has_def calm_def fresh_def answered_def
      settle_def invalid_request_def json_def rejected_def handleRequest_def)

subsection \<open>Claim C6\<close>

text \<open>
  C6. In every reachable state, and however the engines behave when they are closed
  (\<open>closing out\<close> may reject or throw for any of them), a tick of the sweep ends without an
  error; a session whose \<^verbatim>\<open>lastActivity\<close> lies more than the idle timeout before the
  clock reading of the tick is no longer in the cache afterwards, and \<^verbatim>\<open>close()\<close> of its
  engine was called during the tick. From then on, in every state the server reaches
  without a new session being issued the same identifier, a POST, GET or DELETE request
  bearing that key is answered 404 and changes nothing.
\<close>

theorem idle_session_swept:
  assumes "reachable out st"
    and "(sid, Val session) \<in> set (LRUCache_entries (sessions st))"
    and "now out (clock_reads st) - lastActivity session > SESSION_IDLE_TIMEOUT_MS"
  shows "\<exists>st' closed. cleanupInterval out st = Inr st'
     \<and> \<not> LRUCache_has (sessions st') sid
     \<and> close_calls st' = close_calls st @ closed \<and> transport session \<in> set closed
     \<and> (\<forall>ids st'' d req res.
           steps out st' ids st'' \<and> sid \<notin> set ids
           \<and> req_session_id req = Some sid \<and> \<not> headersSent res \<longrightarrow>
             mcpPostHandler out d req res st'' = (None, st'', rejected 404 ''Session not found'' res)
           \<and> mcpGetHandler out d req res st'' = (None, st'', rejected 404 ''Session not found'' res)
           \<and> mcpDeleteHandler out d req res st'' = (None, st'', rejected 404 ''Session not found'' res))"
proof -
  have c: "consistent st" by (rule reachable_consistent[OF assms(1)])
  let ?t = "now out (clock_reads st)"
  let ?st0 = "st\<lparr>clock_reads := Suc (clock_reads st)\<rparr>"
  from cleanupInterval_swept[OF c, of out]
  obtain st' where st': "cleanupInterval out st = Inr st'" "swept ?t 0 ?st0 st'" by blast
  from assms(2) obtain j where j: "j < length (cache (sessions st))"
      "cache (sessions st) ! j = Some (sid, Val session)"
    using jsmap_entry_slot[of "(sid, Val session)" "cache (sessions st)"]
    by (auto simp: LRUCache_entries_def)
  from st'(2) j assms(3)
  have gone: "\<not> jsmap_has (cache (sessions st')) sid"
    and closed: "transport session \<in> set (drop (length (close_calls st)) (close_calls st'))"
    unfolding swept_def by auto
  from st'(2) obtain cs where cs: "close_calls st' = close_calls st @ cs"
    unfolding swept_def by auto
  have c': "consistent st'" using st'(2) by (simp add: swept_def)
  have sid: "sid \<noteq> []"
    using consistent_entry[OF c, of sid "Val session"] assms(2) by (simp add: LRUCache_entries_def)
  have later: "mcpPostHandler out d req res st'' = (None, st'', rejected 404 ''Session not found'' res)
           \<and> mcpGetHandler out d req res st'' = (None, st'', rejected 404 ''Session not found'' res)
           \<and> mcpDeleteHandler out d req res st'' = (None, st'', rejected 404 ''Session not found'' res)"
    if "steps out st' ids st'' \<and> sid \<notin> set ids \<and> req_session_id req = Some sid \<and> \<not> headersSent res"
    for ids st'' d req res
  proof -
    from that steps_keys[OF _ c', of out ids st'' sid] gone
    have absent: "\<not> LRUCache_has (sessions st'') sid" by (auto simp: LRUCache_has_def)
    from that have open_res: "\<not> headersSent res" and key: "req_session_id req = Some sid" by auto
    show ?thesis
      using post_rejects[of req sid st'' out d res] handler_rejections[OF open_res, of req sid st'' out d]
        absent key sid open_res
      by simp
  qed
  then have all_later: "\<forall>ids st'' d req res.
           steps out st' ids st'' \<and> sid \<notin> set ids
           \<and> req_session_id req = Some sid \<and> \<not> headersSent res \<longrightarrow>
             mcpPostHandler out d req res st'' = (None, st'', rejected 404 ''Session not found'' res)
           \<and> mcpGetHandler out d req res st'' = (None, st'', rejected 404 ''Session not found'' res)
           \<and> mcpDeleteHandler out d req res st'' = (None, st'', rejected 404 ''Session not found'' res)"
    by blast
  have "\<not> LRUCache_has (sessions st') sid" using gone by (simp add: LRUCache_has_def)
  moreover have "transport session \<in> set cs" using closed cs by simp
  ultimately show ?thesis
    using st'(1) cs all_later
    by (intro exI[of _ st'] exI[of _ cs] conjI)
qed

theorem idle_session_swept_witness:
  "reachable calm established
   \<and> (first_id, Val \<lparr>transport = 0, lastActivity = 0\<rparr>) \<in> set (LRUCache_entries (sessions established))
   \<and> now calm (clock_reads established) - 0 > SESSION_IDLE_TIMEOUT_MS
   \<and> closing calm 0 = Rejects
   \<and> cleanupInterval calm established
       = Inr (established\<lparr>sessions := \<lparr>maxSize = 1000, cache = [None, None]\<rparr>,
                          close_calls := [0], clock_reads := 2\<rparr>)
   \<and> mcpPostHandler calm answered (request_to ''POST'' (Some first_id) True) fresh
        (established\<lparr>sessions := \<lparr>maxSize = 1000, cache = [None, None]\<rparr>,
                          close_calls := [0], clock_reads := 2\<rparr>)
       = (None, established\<lparr>sessions := \<lparr>maxSize = 1000, cache = [None, None]\<rparr>,
                          close_calls := [0], clock_reads := 2\<rparr>,
          rejected 404 ''Session not found'' fresh)"
proof -
  let ?after = "established\<lparr>sessions := \<lparr>maxSize = 1000, cache = [None, None]\<rparr>,
                          close_calls := [0], clock_reads := 2\<rparr>"
  have entry: "(first_id, Val \<lparr>transport = 0, lastActivity = 0\<rparr>) \<in> set (LRUCache_entries (sessions established))"
    by (simp add: established_def LRUCache_entries_def)
  have idle: "now calm (clock_reads established) - lastActivity \<lparr>transport = 0, lastActivity = 0\<rparr>
        > SESSION_IDLE_TIMEOUT_MS"
    by (simp add: calm_def established_def SESSION_IDLE_TIMEOUT_MS_def)
  from idle_session_swept[OF established_reachable entry idle]
  obtain st' where st': "cleanupInterval calm established = Inr st'"
    and later: "\<forall>ids st'' d req res.
           steps calm st' ids st'' \<and> first_id \<notin> set ids
           \<and> req_session_id req = Some first_id \<and> \<not> headersSent res \<longrightarrow>
             mcpPostHandler calm d req res st'' = (None, st'', rejected 404 ''Session not found'' res)"
    by blast
  from st' have eq: "st' = ?after" by (simp add: tick_established)
  have "steps calm st' [] st'" by (rule steps.none)
  with later[rule_format, of "[]" st' "request_to ''POST'' (Some first_id) True" fresh answered]
  have "mcpPostHandler calm answered (request_to ''POST'' (Some first_id) True) fresh st'
         = (None, st', rejected 404 ''Session not found'' fresh)"
    by (simp add: request_to_def fresh_def)
  then have "mcpPostHandler calm answered (request_to ''POST'' (Some first_id) True) fresh ?after
         = (None, ?after, rejected 404 ''Session not found'' fresh)"
    unfolding eq .
  then show ?thesis
    using established_reachable entry idle tick_established by (simp add: calm_def)
qed

subsection \<open>Claim C7\<close>

text \<open>
  C7. A request that resolves to a session is dispatched to the session's engine. When the
  dispatch throws after the headers were sent, the response stays as the engine left it:
  the handlers send nothing and end normally. When it throws before anything was sent,
  exactly one reply is sent, with status 500 and the internal-error envelope. The POST
  and DELETE handlers do this in their own \<^verbatim>\<open>catch\<close> blocks; the GET handler has none, its
  promise rejects and the error-handling middleware of lines 384 to 404 answers (\<open>route\<close>).
\<close>

theorem dispatch_failure_answered_once:
  assumes "req_session_id req = Some sid" "sid \<noteq> []"
    and "jsmap_get (cache (sessions st)) sid = Val info"
    and "throws d"
  shows "\<exists>st1 st2 st3 r1 r2 r3.
      mcpPostHandler out d req res st = (None, st1, r1)
    \<and> mcpGetHandler out d req res st = (Some DispatchFailed, st2, snd (handleRequest d res))
    \<and> route (mcpGetHandler out d req res st) = (None, st2, r2)
    \<and> mcpDeleteHandler out d req res st = (None, st3, r3)
    \<and> (headersSent res \<or> commits d \<longrightarrow>
          r1 = snd (handleRequest d res) \<and> r2 = snd (handleRequest d res)
        \<and> r3 = snd (handleRequest d res))
    \<and> (\<not> headersSent res \<and> \<not> commits d \<longrightarrow>
          r1 = failed ''Internal server error'' res
        \<and> r2 = failed ''Internal server error'' res
        \<and> r3 = failed ''Error processing session termination'' res)"
  using assms
  by (simp add: mcpPostHandler_def post_try_reuse[OF assms(1-3)] get_reuse[OF assms(1-3)]
      delete_reuse[OF assms(1-3)] route_def errorHandler_def internal_error_cases settle_def
      handleRequest_def)

theorem dispatch_failure_answered_once_witness:
  "req_session_id (request_to ''POST'' (Some first_id) False) = Some first_id
   \<and> first_id \<noteq> []
   \<and> jsmap_get (cache (sessions established)) first_id = Val \<lparr>transport = 0, lastActivity = 0\<rparr>
   \<and> throws failing \<and> throws failing_late
   \<and> (\<exists>st1 st2 st3.
         mcpPostHandler calm failing (request_to ''POST'' (Some first_id) False) fresh established
           = (None, st1, failed ''Internal server error'' fresh)
       \<and> route (mcpGetHandler calm failing (request_to ''POST'' (Some first_id) False) fresh established)
           = (None, st2, failed ''Internal server error'' fresh)
       \<and> mcpDeleteHandler calm failing (request_to ''POST'' (Some first_id) False) fresh established
           = (None, st3, failed ''Error processing session termination'' fresh))
   \<and> (\<exists>st1 st2 st3.
         mcpPostHandler calm failing_late (request_to ''POST'' (Some first_id) False) fresh established
           = (None, st1, fresh\<lparr>headersSent := True, sent := [Streamed]\<rparr>)
       \<and> route (mcpGetHandler calm failing_late (request_to ''POST'' (Some first_id) False) fresh established)
           = (None, st2, fresh\<lparr>headersSent := True, sent := [Streamed]\<rparr>)
       \<and> mcpDeleteHandler calm failing_late (request_to ''POST'' (Some first_id) False) fresh established
           = (None, st3, fresh\<lparr>headersSent := True, sent := [Streamed]\<rparr>))"
proof -
  let ?req = "request_to ''POST'' (Some first_id) False"
  have key: "req_session_id ?req = Some first_id" by (simp add: request_to_def)
  have f: "throws failing" "throws failing_late" by (simp_all add: failing_def failing_late_def)
  have early: "\<not> headersSent fresh \<and> \<not> commits failing" by (simp add: fresh_def failing_def)
  have late: "headersSent fresh \<or> commits failing_late" by (simp add: failing_late_def)
  have stream: "snd (handleRequest failing_late fresh) = fresh\<lparr>headersSent := True, sent := [Streamed]\<rparr>"
    by (simp add: handleRequest_def failing_late_def fresh_def)
  from dispatch_failure_answered_once[OF key first_id_nonempty get_established f(1), of calm fresh] early
  have a: "\<exists>st1 st2 st3.
         mcpPostHandler calm failing ?req fresh established
           = (None, st1, failed ''Internal server error'' fresh)
       \<and> route (mcpGetHandler calm failing ?req fresh established)
           = (None, st2, failed ''Internal server error'' fresh)
       \<and> mcpDeleteHandler calm failing ?req fresh established
           = (None, st3, failed ''Error processing session termination'' fresh)"
    by auto
  from dispatch_failure_answered_once[OF key first_id_nonempty get_established f(2), of calm fresh] late stream
  have b: "\<exists>st1 st2 st3.
         mcpPostHandler calm failing_late ?req fresh established
           = (None, st1, fresh\<lparr>headersSent := True, sent := [Streamed]\<rparr>)
       \<and> route (mcpGetHandler calm failing_late ?req fresh established)
           = (None, st2, fresh\<lparr>headersSent := True, sent := [Streamed]\<rparr>)
       \<and> mcpDeleteHandler calm failing_late ?req fresh established
           = (None, st3, fresh\<lparr>headersSent := True, sent := [Streamed]\<rparr>)"
    by auto
  show ?thesis using key first_id_nonempty get_established f a b by simp
qed

subsection \<open>Claim C8\<close>

text \<open>
  C8, as amended. In a reachable state, a POST or GET request that resolves to a session
  and whose dispatch succeeds reads the clock once, stores that reading as the session's
  \<^verbatim>\<open>lastActivity\<close> and moves the session to the end of the order; the other entries keep
  their values and their order. A DELETE request that resolves to a session moves the
  session to the end of the order as well, but reads no clock and leaves \<^verbatim>\<open>lastActivity\<close>
  as it was.
\<close>

theorem activity_refreshed_once:
  assumes "reachable out st"
    and "(sid, Val session) \<in> set (LRUCache_entries (sessions st))"
    and "req_session_id req = Some sid" and "\<not> throws d"
  shows "\<exists>c1 c2 c3.
       mcpPostHandler out d req res st
         = (None, st\<lparr>sessions := c1, clock_reads := Suc (clock_reads st)\<rparr>, snd (handleRequest d res))
     \<and> mcpGetHandler out d req res st
         = (None, st\<lparr>sessions := c2, clock_reads := Suc (clock_reads st)\<rparr>, snd (handleRequest d res))
     \<and> LRUCache_entries c1
         = filter (\<lambda>e. fst e \<noteq> sid) (LRUCache_entries (sessions st))
             @ [(sid, Val (session\<lparr>lastActivity := now out (clock_reads st)\<rparr>))]
     \<and> LRUCache_entries c2 = LRUCache_entries c1
     \<and> mcpDeleteHandler out d req res st = (None, st\<lparr>sessions := c3\<rparr>, snd (handleRequest d res))
     \<and> LRUCache_entries c3
         = filter (\<lambda>e. fst e \<noteq> sid) (LRUCache_entries (sessions st)) @ [(sid, Val session)]"
proof -
  have c: "consistent st" by (rule reachable_consistent[OF assms(1)])
  let ?m = "cache (sessions st)"
  have d: "distinct (map fst (jsmap_entries ?m))" using c by (simp add: consistent_iff)
  have entry: "(sid, Val session) \<in> set (jsmap_entries ?m)"
    using assms(2) by (simp add: LRUCache_entries_def)
  have sid: "sid \<noteq> []" using consistent_entry[OF c entry] by simp
  have get: "jsmap_get ?m sid = Val session" by (rule jsmap_get_entry[OF d entry])
  let ?touched = "Val (session\<lparr>lastActivity := now out (clock_reads st)\<rparr>)"
  let ?m3 = "promote (promote (promote ?m sid (Val session)) sid (Val session)) sid ?touched"
  let ?c1 = "(sessions st)\<lparr>cache := ?m3\<rparr>"
  let ?c3 = "(sessions st)\<lparr>cache := promote ?m sid (Val session)\<rparr>"
  have "mcpPostHandler out d req res st
         = (None, st\<lparr>sessions := ?c1, clock_reads := Suc (clock_reads st)\<rparr>, snd (handleRequest d res))"
    using assms(4) by (simp add: mcpPostHandler_def post_try_reuse[OF assms(3) sid get] with_cache_def)
  moreover have "mcpGetHandler out d req res st
         = (None, st\<lparr>sessions := ?c1, clock_reads := Suc (clock_reads st)\<rparr>, snd (handleRequest d res))"
    using assms(4) by (simp add: get_reuse[OF assms(3) sid get] with_cache_def)
  moreover have "LRUCache_entries ?c1
         = filter (\<lambda>e. fst e \<noteq> sid) (LRUCache_entries (sessions st)) @ [(sid, ?touched)]"
    by (simp add: LRUCache_entries_def entries_promote_thrice[OF d])
  moreover have "mcpDeleteHandler out d req res st = (None, st\<lparr>sessions := ?c3\<rparr>, snd (handleRequest d res))"
    using assms(4) by (simp add: delete_reuse[OF assms(3) sid get] with_cache_def)
  moreover have "LRUCache_entries ?c3
         = filter (\<lambda>e. fst e \<noteq> sid) (LRUCache_entries (sessions st)) @ [(sid, Val session)]"
    by (simp add: LRUCache_entries_def jsmap_entries_promote[OF d])
  ultimately show ?thesis
    by (intro exI[of _ ?c1] exI[of _ ?c3]) simp
qed

theorem activity_refreshed_once_witness:
  "reachable calm established
   \<and> (first_id, Val \<lparr>transport = 0, lastActivity = 0\<rparr>) \<in> set (LRUCache_entries (sessions established))
   \<and> req_session_id (request_to ''POST'' (Some first_id) False) = Some first_id
   \<and> \<not> throws answered
   \<and> now calm (clock_reads established) = 2000000
   \<and> (\<exists>c1. mcpPostHandler calm answered (request_to ''POST'' (Some first_id) False) fresh established
          = (None, established\<lparr>sessions := c1, clock_reads := 2\<rparr>,
             fresh\<lparr>headersSent := True, sent := [Streamed]\<rparr>)
        \<and> LRUCache_entries c1 = [(first_id, Val \<lparr>transport = 0, lastActivity = 2000000\<rparr>)])"
proof -
  let ?req = "request_to ''POST'' (Some first_id) False"
  have entry: "(first_id, Val \<lparr>transport = 0, lastActivity = 0\<rparr>) \<in> set (LRUCache_entries (sessions established))"
    by (simp add: established_def LRUCache_entries_def)
  have key: "req_session_id ?req = Some first_id" by (simp add: request_to_def)
  have ok: "\<not> throws answered" by (simp add: answered_def)
  have clock: "now calm (clock_reads established) = 2000000" "Suc (clock_reads established) = 2"
    by (simp_all add: calm_def established_def)
  have es: "LRUCache_entries (sessions established) = [(first_id, Val \<lparr>transport = 0, lastActivity = 0\<rparr>)]"
    by (simp add: established_def LRUCache_entries_def)
  have stream: "snd (handleRequest answered fresh) = fresh\<lparr>headersSent := True, sent := [Streamed]\<rparr>"
    by (simp add: handleRequest_def answered_def fresh_def)
  from activity_refreshed_once[OF established_reachable entry key ok, of fresh]
  obtain c1 where "mcpPostHandler calm answered ?req fresh established
         = (None, established\<lparr>sessions := c1, clock_reads := Suc (clock_reads established)\<rparr>,
            snd (handleRequest answered fresh))"
     and "LRUCache_entries c1
         = filter (\<lambda>e. fst e \<noteq> first_id) (LRUCache_entries (sessions established))
             @ [(first_id, Val (\<lparr>transport = 0, lastActivity = 0\<rparr>\<lparr>lastActivity := now calm (clock_reads established)\<rparr>))]"
    by blast
  then have "mcpPostHandler calm answered ?req fresh established
          = (None, established\<lparr>sessions := c1, clock_reads := 2\<rparr>,
             fresh\<lparr>headersSent := True, sent := [Streamed]\<rparr>)
        \<and> LRUCache_entries c1 = [(first_id, Val \<lparr>transport = 0, lastActivity = 2000000\<rparr>)]"
    by (simp add: clock es stream)
  then show ?thesis
    using established_reachable entry key ok clock(1) by blast
qed

text \<open>
  C8 as it was stated fails on the DELETE endpoint, whose handler never calls
  \<^verbatim>\<open>touchSession\<close>: after the first session was established at clock reading 0, a DELETE
  request for it is dispatched successfully while the clock reads 2000000, and the
  session's \<^verbatim>\<open>lastActivity\<close> is still 0.
\<close>

theorem delete_does_not_refresh:
  "session_initialized calm 0 (startHttpServer\<lparr>engines := 1\<rparr>) = (None, established)
   \<and> now calm (clock_reads established) = 2000000
   \<and> mcpDeleteHandler calm answered (request_to ''DELETE'' (Some first_id) False) fresh established
       = (None,
          established\<lparr>sessions := \<lparr>maxSize = 1000,
             cache = [None, Some (first_id, Val \<lparr>transport = 0, lastActivity = 0\<rparr>)]\<rparr>\<rparr>,
          fresh\<lparr>headersSent := True, sent := [Streamed]\<rparr>)"
proof -
  have key: "req_session_id (request_to ''DELETE'' (Some first_id) False) = Some first_id"
    by (simp add: request_to_def)
  have slots: "promote (cache (sessions established)) first_id (Val \<lparr>transport = 0, lastActivity = 0\<rparr>)
       = [None, Some (first_id, Val \<lparr>transport = 0, lastActivity = 0\<rparr>)]"
    by (simp add: promote_def established_def)
  have "mcpDeleteHandler calm answered (request_to ''DELETE'' (Some first_id) False) fresh established
       = (None,
          established\<lparr>sessions := \<lparr>maxSize = 1000,
             cache = [None, Some (first_id, Val \<lparr>transport = 0, lastActivity = 0\<rparr>)]\<rparr>\<rparr>,
          fresh\<lparr>headersSent := True, sent := [Streamed]\<rparr>)"
    by (simp add: delete_reuse[OF key first_id_nonempty get_established] slots answered_def
        handleRequest_def fresh_def with_cache_def) (simp add: established_def)
  moreover have "now calm (clock_reads established) = 2000000"
    by (simp add: calm_def established_def)
  ultimately show ?thesis using first_session by simp
qed

subsection \<open>Claim C9\<close>




subsection \<open>Claim C10\<close>

text \<open>
  C10. For a request without an \<^verbatim>\<open>Origin\<close> header (or with an empty one) the CORS
  middleware leaves the response untouched and calls \<^verbatim>\<open>next\<close>, whatever the method and the
  path. It ends a request itself, with 204 or with 403, or changes the response at all,
  only when the header is present.
\<close>

theorem cors_without_origin:
  "(\<not> truthy (req_origin req) \<longrightarrow> corsMiddleware req res = Inr (Next, res))
   \<and> (corsMiddleware req res = Inr (Ended, res') \<longrightarrow> (\<exists>origin. req_origin req = Some origin \<and> origin \<noteq> []))
   \<and> (corsMiddleware req res = Inr (flow, res') \<and> res' \<noteq> res \<longrightarrow>
         (\<exists>origin. req_origin req = Some origin \<and> origin \<noteq> []))"
  by (auto simp: corsMiddleware_def truthy_def Let_def split: option.splits)

theorem cors_without_origin_witness:
  "\<not> truthy (req_origin (request_to ''OPTIONS'' None False))
   \<and> corsMiddleware (request_to ''OPTIONS'' None False) fresh = Inr (Next, fresh)
   \<and> corsMiddleware ((request_to ''OPTIONS'' None False)\<lparr>req_origin := Some ''http://example.com''\<rparr>) fresh
       = Inr (Ended,
           \<lparr>headers = [(''Access-Control-Allow-Origin'', ''http://example.com''),
                       (''Access-Control-Allow-Methods'', ''GET, POST, DELETE, OPTIONS''),
                       (''Access-Control-Allow-Headers'', ''Content-Type, mcp-session-id''),
                       (''Access-Control-Max-Age'', ''86400'')],
            headersSent = True, sent = [Reply 204 NoBody]\<rparr>)
   \<and> corsMiddleware ((request_to ''GET'' None False)\<lparr>req_origin := Some ''http://example.com'',
          req_path := ''/mcp-admin''\<rparr>) fresh
       = Inr (Ended, fresh\<lparr>headersSent := True,
           sent := [Reply 403 (ErrorMessage ''Cross-origin requests not allowed'')]\<rparr>)"
proof -
  have a: "\<not> truthy (req_origin (request_to ''OPTIONS'' None False))"
    by (simp add: request_to_def truthy_def)
  have b: "corsMiddleware ((request_to ''OPTIONS'' None False)\<lparr>req_origin := Some ''http://example.com''\<rparr>) fresh
       = Inr (Ended,
           \<lparr>headers = [(''Access-Control-Allow-Origin'', ''http://example.com''),
                       (''Access-Control-Allow-Methods'', ''GET, POST, DELETE, OPTIONS''),
                       (''Access-Control-Allow-Headers'', ''Content-Type, mcp-session-id''),
                       (''Access-Control-Max-Age'', ''86400'')],
            headersSent = True, sent = [Reply 204 NoBody]\<rparr>)"
    by (simp add: corsMiddleware_def request_to_def truthy_def string_of_def isCorsAllowedPath_def
        CORS_ALLOWED_PATHS_def matchesAllowedPathBoundary_def cors_headers_def setHeader_def
        end_response_def fresh_def)
  have c: "corsMiddleware ((request_to ''GET'' None False)\<lparr>req_origin := Some ''http://example.com'',
          req_path := ''/mcp-admin''\<rparr>) fresh
       = Inr (Ended, fresh\<lparr>headersSent := True,
           sent := [Reply 403 (ErrorMessage ''Cross-origin requests not allowed'')]\<rparr>)"
    by (simp add: corsMiddleware_def request_to_def truthy_def string_of_def isCorsAllowedPath_def
        CORS_ALLOWED_PATHS_def matchesAllowedPathBoundary_def startsWith_def endsWith_def
        json_def fresh_def)
  show ?thesis
    using cors_without_origin[of "request_to ''OPTIONS'' None False" fresh] a b c by simp
qed


end
